theory Spec2Isabelle
  imports Main
begin

section \<open>The command parser of shell.c\<close>

text \<open>
  The shell never calls setlocale, so the character classes are those of the "C" locale:
  isprint holds of the bytes 0x20..0x7E and isspace of the space and of 0x09..0x0D.
  A byte above 0x7E is in neither class.
  A byte is a \<^typ>\<open>char\<close>; a line is the list of the \<open>len\<close> bytes that getline
  returned, and the byte at index \<open>len\<close> is the terminating NUL that getline appends.
  The loop index \<open>i\<close> of gen_command is an \<open>int\<close>, of 32 bits, while \<open>len\<close> is an
  \<open>ssize_t\<close>: the index is a natural number in the model, and the addition \<open>i + 1\<close>
  beyond INT_MAX, which is undefined behaviour in C, is a fault of the model.
  \<open>overflows n\<close> says that \<open>n\<close> is not a value of an \<open>int\<close>, that is \<open>INT_MAX < n\<close>.
\<close>

definition INT_MAX :: nat where
  "INT_MAX = 2147483647"

definition overflows :: "nat \<Rightarrow> bool" where
  "overflows n \<longleftrightarrow> (2147483647 :: int) < int n"

definition isprint :: "char \<Rightarrow> bool" where
  "isprint c \<longleftrightarrow> 32 \<le> (of_char c :: nat) \<and> (of_char c :: nat) \<le> 126"

definition isspace :: "char \<Rightarrow> bool" where
  "isspace c \<longleftrightarrow> (of_char c :: nat) = 32 \<or> (9 \<le> (of_char c :: nat) \<and> (of_char c :: nat) \<le> 13)"

definition NUL :: char where
  "NUL = CHR 0x00"

text \<open>\<open>line[i]\<close> for \<open>i \<le> len\<close>: the bytes read, then the terminator.\<close>

definition at :: "string \<Rightarrow> nat \<Rightarrow> char" where
  "at line i = (if i < length line then line ! i else NUL)"

text \<open>\<open>strndup(&line[start], n)\<close>: at most \<open>n\<close> bytes, stopping before a NUL.\<close>

definition strndup :: "string \<Rightarrow> nat \<Rightarrow> nat \<Rightarrow> string" where
  "strndup line start n = takeWhile (\<lambda>c. c \<noteq> NUL) (take n (drop start line))"

datatype command_type = FAIL | SPACES | FOREGROUND | BACKGROUND

text \<open>
  Undefined behaviour of the C program is a value of the model: a write or read outside an
  allocated array (index, then number of slots), a dereference of a null pointer, a free of
  a pointer that is not allocated, a read of a slot that was never written, a read of a
  string that was freed, an overflow of a signed integer.
\<close>

datatype fault =
  OutOfBounds nat nat | NullDeref | InvalidFree | UninitRead | UseAfterFree | IntOverflow

text \<open>
  A slot of the \<open>argv\<close> array: what malloc left there, the NULL pointer, or a pointer to a
  string made by strndup.
\<close>

datatype slot = Uninit | Null | Ptr string

record command =
  cmd :: "string option"
  argv :: "slot list"

text \<open>
  The first loop of gen_command, from index \<open>i\<close> with \<open>num_args\<close> counted so far.
  The result is \<open>None\<close> for \<open>return FAIL\<close> and otherwise the final
  \<open>(num_args, is_background)\<close>. The test that follows the test for the marker reads
  \<open>line[i + 1]\<close> first, so it computes \<open>i + 1\<close> whenever it is reached.
\<close>

function scan_count :: "string \<Rightarrow> nat \<Rightarrow> nat \<Rightarrow> fault + (nat \<times> bool) option" where
  "scan_count line i num_args =
     (if i < length line then
        (if \<not> isprint (at line i) \<and> \<not> isspace (at line i) then Inr None
         else if at line i = CHR ''&'' then Inr (Some (num_args, True))
         else if overflows (i + 1) then Inl IntOverflow
         else if (isspace (at line (i + 1)) \<or> at line (i + 1) = NUL) \<and> \<not> isspace (at line i)
           then scan_count line (i + 1) (num_args + 1)
         else scan_count line (i + 1) num_args)
      else Inr (Some (num_args, False)))"
  by pat_completeness auto
termination
  by (relation "measure (\<lambda>(line, i, num_args). length line - i)") auto

declare scan_count.simps [simp del]

text \<open>\<open>(*c)->argv[k] = v\<close> on an array of \<open>length a\<close> slots.\<close>

definition store :: "slot list \<Rightarrow> nat \<Rightarrow> slot \<Rightarrow> fault + slot list" where
  "store a k v = (if k < length a then Inr (a[k := v]) else Inl (OutOfBounds k (length a)))"

text \<open>
  The body of the token branch of the second loop: the first token is also the command
  name, and every token is stored at \<open>argv[count]\<close>.
\<close>

definition copy_token :: "command \<Rightarrow> nat \<Rightarrow> string \<Rightarrow> fault + command" where
  "copy_token c count s =
     (case store (argv c) count (Ptr s) of
        Inl e \<Rightarrow> Inl e
      | Inr a \<Rightarrow> Inr ((if count = 0 then c\<lparr>cmd := Some s\<rparr> else c)\<lparr>argv := a\<rparr>))"

text \<open>
  The second loop of gen_command, from index \<open>i\<close> with the current \<open>start\<close> and
  \<open>count\<close> and the command built so far. It runs over the whole line. Whether
  \<open>line[i]\<close> is whitespace or not, one of the two tests of the body reads
  \<open>line[i + 1]\<close>, so every iteration computes \<open>i + 1\<close> before it does anything else.
\<close>

function scan_copy :: "string \<Rightarrow> nat \<Rightarrow> nat \<Rightarrow> nat \<Rightarrow> command \<Rightarrow> fault + command" where
  "scan_copy line i start count c =
     (if i < length line then
        (if overflows (i + 1) then Inl IntOverflow
         else if isspace (at line i) \<and> \<not> isspace (at line (i + 1))
           then scan_copy line (i + 1) (i + 1) count c
         else if \<not> isspace (at line i) \<and> (isspace (at line (i + 1)) \<or> at line (i + 1) = NUL)
           then (case copy_token c count (strndup line start (i - start + 1)) of
                   Inl e \<Rightarrow> Inl e
                 | Inr c1 \<Rightarrow> scan_copy line (i + 1) start (count + 1) c1)
         else scan_copy line (i + 1) start count c)
      else Inr c)"
  by pat_completeness auto
termination
  by (relation "measure (\<lambda>(line, i, start, count, c). length line - i)") auto

declare scan_copy.simps [simp del]

text \<open>
  gen_command: the classification and, through \<open>*c\<close>, the command. malloc leaves
  \<open>cmd\<close> and the \<open>num_args + 2\<close> slots of \<open>argv\<close> unwritten.
\<close>

definition gen_command :: "string \<Rightarrow> fault + (command_type \<times> command option)" where
  "gen_command line =
     (case scan_count line 0 0 of
        Inl e \<Rightarrow> Inl e
      | Inr None \<Rightarrow> Inr (FAIL, None)
      | Inr (Some (num_args, is_background)) \<Rightarrow>
          if num_args = 0 then Inr (SPACES, None)
          else (case scan_copy line 0 0 0 \<lparr>cmd = None, argv = replicate (num_args + 2) Uninit\<rparr> of
                  Inl e \<Rightarrow> Inl e
                | Inr c1 \<Rightarrow>
                    (case store (argv c1) num_args Null of
                       Inl e \<Rightarrow> Inl e
                     | Inr a \<Rightarrow> Inr (if is_background then BACKGROUND else FOREGROUND,
                                     Some (c1\<lparr>argv := a\<rparr>)))))"

text \<open>
  What a consumer such as execvp or free_command reads from \<open>argv\<close>: the strings up to the
  first NULL. \<open>None\<close> when an unwritten slot or the end of the array comes first.
\<close>

fun args_of :: "slot list \<Rightarrow> string list option" where
  "args_of [] = None"
| "args_of (Uninit # a) = None"
| "args_of (Null # a) = Some []"
| "args_of (Ptr s # a) = map_option ((#) s) (args_of a)"


text \<open>
  The reading of the specification's "tokens" of a text: its maximal runs of bytes that are
  not whitespace, in order. The claims about gen_command are stated against it.
\<close>

function spec_tokens :: "string \<Rightarrow> string list" where
  "spec_tokens [] = []"
| "spec_tokens (c # cs) =
     (if isspace c then spec_tokens cs
      else (c # takeWhile (\<lambda>x. \<not> isspace x) cs) # spec_tokens (dropWhile (\<lambda>x. \<not> isspace x) cs))"
  by pat_completeness auto
termination
  by (relation "measure length") (auto simp: length_dropWhile_le less_Suc_eq_le)

text \<open>
  The writes of the second loop for a list of tokens, starting at \<open>argv[count]\<close>, on an
  array that is large enough (used to state what scan_copy computes).
\<close>

fun put_tokens :: "command \<Rightarrow> nat \<Rightarrow> string list \<Rightarrow> command" where
  "put_tokens cm count [] = cm"
| "put_tokens cm count (t # ts) =
     put_tokens ((if count = 0 then cm\<lparr>cmd := Some t\<rparr> else cm)\<lparr>argv := (argv cm)[count := Ptr t]\<rparr>)
       (count + 1) ts"

section \<open>The job registry\<close>

text \<open>
  A job holds a pid and a pointer to its name, a string on the heap made by strdup. The heap
  maps the addresses of the live strings to their contents; \<open>brk\<close> is the next address
  that malloc hands out (an address is not reused after free, and malloc, realloc and
  strdup are taken to succeed: the source does not test their results).
\<close>

type_synonym addr = nat

record job =
  pid :: int
  name :: addr

text \<open>
  \<open>struct child_jobs\<close>: \<open>jobs\<close> lists the slots of the flexible array member that the
  allocation holds; a slot that was never written is \<open>None\<close>.
\<close>

record child_jobs =
  len :: nat
  cap :: nat
  jobs :: "job option list"

record heap =
  strs :: "addr \<Rightarrow> string option"
  brk :: addr

text \<open>The global pointer \<open>child_jobs\<close> (\<open>None\<close> is NULL) and the heap of names.\<close>

record mem =
  child_jobs :: "child_jobs option"
  heap :: heap

definition strdup :: "heap \<Rightarrow> string \<Rightarrow> addr \<times> heap" where
  "strdup h s = (brk h, h\<lparr>strs := (strs h)(brk h \<mapsto> s), brk := brk h + 1\<rparr>)"

definition free :: "heap \<Rightarrow> addr \<Rightarrow> fault + heap" where
  "free h a = (case strs h a of
                 None \<Rightarrow> Inl InvalidFree
               | Some s \<Rightarrow> Inr (h\<lparr>strs := (strs h)(a := None)\<rparr>))"

text \<open>Reading the struct at \<open>&child_jobs->jobs[i]\<close>.\<close>

definition job_at :: "job option list \<Rightarrow> nat \<Rightarrow> fault + job" where
  "job_at js i =
     (if i < length js then (case js ! i of None \<Rightarrow> Inl UninitRead | Some j \<Rightarrow> Inr j)
      else Inl (OutOfBounds i (length js)))"

text \<open>
  The body of the match in free_job_by_pid (lines 29 to 34): free the name, copy the slot
  \<open>len - 1\<close> of the loop's snapshot over slot \<open>i\<close> unless \<open>i\<close> is that slot, and decrement
  the stored length. memcpy copies the slot whatever it holds.
\<close>

definition remove_slot :: "nat \<Rightarrow> nat \<Rightarrow> job \<Rightarrow> child_jobs \<Rightarrow> heap \<Rightarrow> fault + child_jobs \<times> heap" where
  "remove_slot i len0 curr_job cj h =
     (case free h (name curr_job) of
        Inl e \<Rightarrow> Inl e
      | Inr h1 \<Rightarrow>
          if i < len0 - 1 then
            (if len0 - 1 < length (jobs cj)
             then Inr (cj\<lparr>jobs := (jobs cj)[i := jobs cj ! (len0 - 1)], len := len cj - 1\<rparr>, h1)
             else Inl (OutOfBounds (len0 - 1) (length (jobs cj))))
          else Inr (cj\<lparr>len := len cj - 1\<rparr>, h1))"

text \<open>
  The loop of free_job_by_pid from index \<open>i\<close>; \<open>len0\<close> is the local \<open>len\<close>, read once
  before the loop, which goes on after a match.
\<close>

function free_loop :: "int \<Rightarrow> nat \<Rightarrow> nat \<Rightarrow> child_jobs \<Rightarrow> heap \<Rightarrow> fault + child_jobs \<times> heap" where
  "free_loop p i len0 cj h =
     (if i < len0 then
        (case job_at (jobs cj) i of
           Inl e \<Rightarrow> Inl e
         | Inr curr_job \<Rightarrow>
             if pid curr_job = p then
               (case remove_slot i len0 curr_job cj h of
                  Inl e \<Rightarrow> Inl e
                | Inr (cj1, h1) \<Rightarrow> free_loop p (i + 1) len0 cj1 h1)
             else free_loop p (i + 1) len0 cj h)
      else Inr (cj, h))"
  by pat_completeness auto
termination
  by (relation "measure (\<lambda>(p, i, len0, cj, h). len0 - i)") auto

declare free_loop.simps [simp del]

definition free_job_by_pid :: "int \<Rightarrow> 'a mem_scheme \<Rightarrow> fault + 'a mem_scheme" where
  "free_job_by_pid p m =
     (case child_jobs m of
        None \<Rightarrow> Inr m
      | Some cj \<Rightarrow>
          if len cj > 0 then
            (case free_loop p 0 (len cj) cj (heap m) of
               Inl e \<Rightarrow> Inl e
             | Inr (cj1, h1) \<Rightarrow> Inr (m\<lparr>child_jobs := Some cj1, heap := h1\<rparr>))
          else Inr m)"

text \<open>
  The loop of find_job_by_pid from index \<open>i\<close>. The pointer \<open>&child_jobs->jobs[i]\<close> that
  the source returns is the index \<open>i\<close>; NULL is \<open>None\<close>.
\<close>

function find_loop :: "int \<Rightarrow> nat \<Rightarrow> nat \<Rightarrow> job option list \<Rightarrow> fault + nat option" where
  "find_loop p i len0 js =
     (if i < len0 then
        (case job_at js i of
           Inl e \<Rightarrow> Inl e
         | Inr curr_job \<Rightarrow> if pid curr_job = p then Inr (Some i) else find_loop p (i + 1) len0 js)
      else Inr None)"
  by pat_completeness auto
termination
  by (relation "measure (\<lambda>(p, i, len0, js). len0 - i)") auto

declare find_loop.simps [simp del]

definition find_job_by_pid :: "int \<Rightarrow> 'a mem_scheme \<Rightarrow> fault + nat option" where
  "find_job_by_pid p m =
     (case child_jobs m of
        None \<Rightarrow> Inr None
      | Some cj \<Rightarrow> if len cj > 0 then find_loop p 0 (len cj) (jobs cj) else Inr None)"

text \<open>
  add_job for the job \<open>{pid = p, name = n}\<close>, where \<open>n\<close> is the string that \<open>j->name\<close>
  points to. realloc keeps the slots that fit into the new size and leaves the others
  unwritten.
\<close>

definition realloc_jobs :: "job option list \<Rightarrow> nat \<Rightarrow> job option list" where
  "realloc_jobs js n = take n js @ replicate (n - length js) None"

definition add_job :: "int \<Rightarrow> string \<Rightarrow> 'a mem_scheme \<Rightarrow> fault + 'a mem_scheme" where
  "add_job p n m =
     (let cj0 = (case child_jobs m of
                   None \<Rightarrow> \<lparr>len = 0, cap = 4, jobs = replicate 4 None\<rparr>
                 | Some cj \<Rightarrow> cj);
          l = len cj0;
          cj1 = (if l \<ge> cap cj0
                 then cj0\<lparr>jobs := realloc_jobs (jobs cj0) (l + 4), cap := cap cj0 + 4\<rparr>
                 else cj0);
          (a, h1) = strdup (heap m) n
      in if l < length (jobs cj1)
         then Inr (m\<lparr>child_jobs := Some (cj1\<lparr>jobs := (jobs cj1)[l := Some \<lparr>pid = p, name = a\<rparr>],
                                              len := len cj1 + 1\<rparr>),
                     heap := h1\<rparr>)
         else Inl (OutOfBounds l (length (jobs cj1))))"

text \<open>The loop of free_jobs from index \<open>i\<close>, then free_jobs.\<close>

function free_names :: "nat \<Rightarrow> nat \<Rightarrow> job option list \<Rightarrow> heap \<Rightarrow> fault + heap" where
  "free_names i len0 js h =
     (if i < len0 then
        (case job_at js i of
           Inl e \<Rightarrow> Inl e
         | Inr curr_job \<Rightarrow>
             (case free h (name curr_job) of
                Inl e \<Rightarrow> Inl e
              | Inr h1 \<Rightarrow> free_names (i + 1) len0 js h1))
      else Inr h)"
  by pat_completeness auto
termination
  by (relation "measure (\<lambda>(i, len0, js, h). len0 - i)") auto

declare free_names.simps [simp del]

definition free_jobs :: "'a mem_scheme \<Rightarrow> fault + 'a mem_scheme" where
  "free_jobs m =
     (case child_jobs m of
        None \<Rightarrow> Inr m
      | Some cj \<Rightarrow>
          (case (if len cj > 0 then free_names 0 (len cj) (jobs cj) (heap m) else Inr (heap m)) of
             Inl e \<Rightarrow> Inl e
           | Inr h1 \<Rightarrow> Inr (m\<lparr>child_jobs := None, heap := h1\<rparr>)))"

text \<open>
  What the callers of find_job_by_pid read through the returned pointer: the string that
  \<open>j->name\<close> points to (\<open>None\<close> when no job matches).
\<close>

definition name_at :: "'a mem_scheme \<Rightarrow> nat \<Rightarrow> fault + string" where
  "name_at m i =
     (case child_jobs m of
        None \<Rightarrow> Inl NullDeref
      | Some cj \<Rightarrow>
          (case job_at (jobs cj) i of
             Inl e \<Rightarrow> Inl e
           | Inr j \<Rightarrow> (case strs (heap m) (name j) of None \<Rightarrow> Inl UseAfterFree | Some s \<Rightarrow> Inr s)))"


section \<open>Built-in commands and the driving loop\<close>

datatype built_ins = EXIT | PID | PPID | CD | PWD | JOBS | NOT

text \<open>
  What the shell writes to stdout and stderr, one constructor for each format string of the
  source, and the system calls that matter to the process life cycle: fork, execvp, and
  waitpid with its pid argument and whether WNOHANG is passed.
\<close>

datatype outcome = Exited int | Killed int | Stopped int | Continued int

datatype message =
    Prompt string
  | Usage
  | ReadFailed
  | ParseFailed
  | Perror string
  | ShellPid int
  | ParentPid int
  | WorkDir string
  | JobLine int string
  | Launch int string
  | Report int string outcome

datatype syscall = Fork | Execvp string "string list" | Waitpid int bool

text \<open>
  What the platform fixes for a whole run and the source takes from its headers and from
  the system: the macros of sys/wait.h and sys/param.h, the pids of the shell and of its
  parent, the value of HOME, and chdir, which maps the working directory and a path to the
  new working directory, or to \<open>None\<close> when it fails.
\<close>

record os =
  WIFEXITED :: "int \<Rightarrow> bool"
  WEXITSTATUS :: "int \<Rightarrow> int"
  WIFSIGNALED :: "int \<Rightarrow> bool"
  WTERMSIG :: "int \<Rightarrow> int"
  WIFSTOPPED :: "int \<Rightarrow> bool"
  WSTOPSIG :: "int \<Rightarrow> int"
  WIFCONTINUED :: "int \<Rightarrow> bool"
  MAXPATHLEN :: nat
  getpid :: int
  getppid :: int
  getenv_HOME :: "string option"
  chdir :: "string \<Rightarrow> string \<Rightarrow> string option"

text \<open>
  What the system answers during one iteration of the loop: the line that getline read
  (\<open>None\<close> when it returns -1), the return value of fork, in the child its own pid and
  whether execvp replaces the program, the status that the foreground waitpid stores, and
  the successive return values and statuses of the calls \<open>waitpid(-1, &status, WNOHANG)\<close>
  of the sweep (after the last of them waitpid returns 0 or -1).
\<close>

record iter_in =
  getline_ret :: "string option"
  fork_ret :: int
  child_getpid :: int
  execvp_ok :: bool
  wait_status :: int
  reaped :: "(int \<times> int) list"

text \<open>The state of the shell process: the registry and its heap, and the locals of main.\<close>

record shell = mem +
  error :: int
  cwd :: string
  out :: "message list"
  calls :: "syscall list"

definition print :: "message list \<Rightarrow> shell \<Rightarrow> shell" where
  "print xs s = s\<lparr>out := out s @ xs\<rparr>"

definition call :: "syscall \<Rightarrow> shell \<Rightarrow> shell" where
  "call x s = s\<lparr>calls := calls s @ [x]\<rparr>"

text \<open>The chain of tests on a wait status, the same after both waitpid calls.\<close>

definition report :: "os \<Rightarrow> int \<Rightarrow> string \<Rightarrow> int \<Rightarrow> message list" where
  "report sys p n status =
     (if WIFEXITED sys status then [Report p n (Exited (WEXITSTATUS sys status))]
      else if WIFSIGNALED sys status then [Report p n (Killed (WTERMSIG sys status))]
      else if WIFSTOPPED sys status then [Report p n (Stopped (WSTOPSIG sys status))]
      else if WIFCONTINUED sys status then [Report p n (Continued status)]
      else [])"

text \<open>Reading \<open>c->argv[k]\<close> as a pointer.\<close>

definition arg_at :: "slot list \<Rightarrow> nat \<Rightarrow> fault + string option" where
  "arg_at a k =
     (if k < length a then
        (case a ! k of Uninit \<Rightarrow> Inl UninitRead | Null \<Rightarrow> Inr None | Ptr s \<Rightarrow> Inr (Some s))
      else Inl (OutOfBounds k (length a)))"

text \<open>The loop of the "jobs" built-in from index \<open>i\<close>: the lines it prints.\<close>

function jobs_lines :: "nat \<Rightarrow> nat \<Rightarrow> 'a mem_scheme \<Rightarrow> fault + message list" where
  "jobs_lines i len0 m =
     (if i < len0 then
        (case child_jobs m of
           None \<Rightarrow> Inl NullDeref
         | Some cj \<Rightarrow>
             (case job_at (jobs cj) i of
                Inl e \<Rightarrow> Inl e
              | Inr curr_job \<Rightarrow>
                  (case name_at m i of
                     Inl e \<Rightarrow> Inl e
                   | Inr n \<Rightarrow>
                       (case jobs_lines (i + 1) len0 m of
                          Inl e \<Rightarrow> Inl e
                        | Inr ls \<Rightarrow> Inr (JobLine (pid curr_job) n # ls)))))
      else Inr [])"
  by pat_completeness auto
termination
  by (relation "measure (\<lambda>(i, len0, m). len0 - i)") auto

declare jobs_lines.simps [simp del]

text \<open>
  The "cd" branch of run_built_in. chdir with the null pointer that getenv returns for an
  unset HOME fails (EFAULT).
\<close>

definition do_cd :: "os \<Rightarrow> string option \<Rightarrow> shell \<Rightarrow> shell" where
  "do_cd sys arg1 s =
     (case (case arg1 of
              Some path \<Rightarrow> chdir sys (cwd s) path
            | None \<Rightarrow> (case getenv_HOME sys of None \<Rightarrow> None | Some home \<Rightarrow> chdir sys (cwd s) home)) of
        Some d \<Rightarrow> s\<lparr>cwd := d\<rparr>
      | None \<Rightarrow> print [Perror ''cd''] s)"

text \<open>getcwd fails when the path and its terminator do not fit into MAXPATHLEN bytes.\<close>

definition do_pwd :: "os \<Rightarrow> shell \<Rightarrow> shell" where
  "do_pwd sys s =
     (if length (cwd s) < MAXPATHLEN sys then print [WorkDir (cwd s)] s
      else print [Perror ''cd''] s)"

definition run_built_in :: "os \<Rightarrow> command \<Rightarrow> shell \<Rightarrow> fault + built_ins \<times> shell" where
  "run_built_in sys c s =
     (case cmd c of
        None \<Rightarrow> Inl UninitRead
      | Some n \<Rightarrow>
          if n = ''exit'' then Inr (EXIT, s)
          else if n = ''pid'' then Inr (PID, print [ShellPid (getpid sys)] s)
          else if n = ''ppid'' then Inr (PPID, print [ParentPid (getppid sys)] s)
          else if n = ''cd'' then
            (case arg_at (argv c) 0 of
               Inl e \<Rightarrow> Inl e
             | Inr None \<Rightarrow> Inl NullDeref
             | Inr (Some a0) \<Rightarrow>
                 if a0 = ''cd'' then
                   (case arg_at (argv c) 1 of
                      Inl e \<Rightarrow> Inl e
                    | Inr arg1 \<Rightarrow> Inr (CD, do_cd sys arg1 s))
                 else Inr (NOT, s))
          else if n = ''pwd'' then Inr (PWD, do_pwd sys s)
          else if n = ''jobs'' then
            (case child_jobs s of
               None \<Rightarrow> Inl NullDeref
             | Some cj \<Rightarrow>
                 (case jobs_lines 0 (len cj) s of
                    Inl e \<Rightarrow> Inl e
                  | Inr ls \<Rightarrow> Inr (JOBS, print ls s)))
          else Inr (NOT, s))"

text \<open>
  The body of the sweep for one child that waitpid returned, and the sweep: it calls
  waitpid with WNOHANG until the return value is not positive. The name of the job is read
  only where a line is printed. The variable \<open>child\<close>, which the source uses without
  declaring it, is a pid.
\<close>

definition reap :: "os \<Rightarrow> int \<Rightarrow> int \<Rightarrow> shell \<Rightarrow> fault + shell" where
  "reap sys child status s =
     (case find_job_by_pid child s of
        Inl e \<Rightarrow> Inl e
      | Inr None \<Rightarrow> Inr s
      | Inr (Some i) \<Rightarrow>
          (case (if WIFEXITED sys status \<or> WIFSIGNALED sys status \<or> WIFSTOPPED sys status \<or>
                    WIFCONTINUED sys status
                 then (case name_at s i of
                         Inl e \<Rightarrow> Inl e
                       | Inr n \<Rightarrow> Inr (print (report sys child n status) s))
                 else Inr s) of
             Inl e \<Rightarrow> Inl e
           | Inr s1 \<Rightarrow> free_job_by_pid child s1))"

fun sweep :: "os \<Rightarrow> (int \<times> int) list \<Rightarrow> shell \<Rightarrow> fault + shell" where
  "sweep sys [] s = Inr (call (Waitpid (- 1) True) s)"
| "sweep sys ((child, status) # rs) s =
     (if child > 0 then
        (case reap sys child status (call (Waitpid (- 1) True) s) of
           Inl e \<Rightarrow> Inl e
         | Inr s1 \<Rightarrow> sweep sys rs s1)
      else Inr (call (Waitpid (- 1) True) s))"

text \<open>
  One iteration of the loop of main ends in one of four ways: the loop goes on, control
  leaves the loop for the label ExitCommand, execvp has replaced the program (in the child),
  or the behaviour is undefined.
\<close>

datatype step = Next shell | Leave shell | Replaced shell | Fault fault

text \<open>From the label FreeLine to the end of the loop body.\<close>

definition free_line :: "os \<Rightarrow> iter_in \<Rightarrow> shell \<Rightarrow> step" where
  "free_line sys inp s = (case sweep sys (reaped inp) s of Inl e \<Rightarrow> Fault e | Inr s1 \<Rightarrow> Next s1)"

text \<open>From the call of fork to the label FreeCommand, for a command that is not built in.\<close>

definition launch :: "os \<Rightarrow> iter_in \<Rightarrow> command_type \<Rightarrow> command \<Rightarrow> shell \<Rightarrow> step" where
  "launch sys inp ty c s =
     (let s1 = call Fork s
      in if fork_ret inp < 0 then free_line sys inp ((print [Perror ''Fork Failed''] s1)\<lparr>error := - 3\<rparr>)
         else (case cmd c of
                 None \<Rightarrow> Fault UninitRead
               | Some n \<Rightarrow>
                   if fork_ret inp = 0 then
                     (case args_of (argv c) of
                        None \<Rightarrow> Fault UninitRead
                      | Some args \<Rightarrow>
                          (let s2 = call (Execvp n args) (print [Launch (child_getpid inp) n] s1)
                           in if execvp_ok inp then Replaced s2
                              else Leave ((print [Perror ''Command Not Found''] s2)\<lparr>error := - 4\<rparr>)))
                   else if ty = FOREGROUND then
                     free_line sys inp
                       (print (report sys (fork_ret inp) n (wait_status inp))
                          (call (Waitpid (fork_ret inp) False) s1))
                   else (case add_job (fork_ret inp) n s1 of
                           Inl e \<Rightarrow> Fault e
                         | Inr s2 \<Rightarrow> free_line sys inp s2)))"

definition iteration :: "os \<Rightarrow> string \<Rightarrow> iter_in \<Rightarrow> shell \<Rightarrow> step" where
  "iteration sys prompt inp s =
     (let s1 = print [Prompt prompt] s
      in case getline_ret inp of
           None \<Rightarrow> Next ((print [ReadFailed] s1)\<lparr>error := - 1\<rparr>)
         | Some line \<Rightarrow>
             if length line \<le> 0 then Next ((print [ReadFailed] s1)\<lparr>error := - 1\<rparr>)
             else (case gen_command line of
                     Inl e \<Rightarrow> Fault e
                   | Inr (ty, co) \<Rightarrow>
                       if ty = FAIL then free_line sys inp ((print [ParseFailed] s1)\<lparr>error := - 2\<rparr>)
                       else if ty = SPACES then free_line sys inp s1
                       else (case co of
                               None \<Rightarrow> Fault UninitRead
                             | Some c \<Rightarrow>
                                 (case run_built_in sys c s1 of
                                    Inl e \<Rightarrow> Fault e
                                  | Inr (b, s2) \<Rightarrow>
                                      if b = EXIT then Leave s2
                                      else if b = NOT then launch sys inp ty c s2
                                      else free_line sys inp s2))))"

text \<open>
  main. The loop has no exit of its own, so a run on finitely many answers of the system
  is still \<open>Running\<close> when they are used up. \<open>Return\<close> carries the value that main
  returns, after free_jobs at the label Exit.
\<close>

datatype result = Return int shell | Running shell | Execed shell | Crash fault

definition exit_main :: "shell \<Rightarrow> result" where
  "exit_main s = (case free_jobs s of Inl e \<Rightarrow> Crash e | Inr s1 \<Rightarrow> Return (error s1) s1)"

fun main_loop :: "os \<Rightarrow> string \<Rightarrow> iter_in list \<Rightarrow> shell \<Rightarrow> result" where
  "main_loop sys prompt [] s = Running s"
| "main_loop sys prompt (inp # inps) s =
     (case iteration sys prompt inp s of
        Next s1 \<Rightarrow> main_loop sys prompt inps s1
      | Leave s1 \<Rightarrow> exit_main s1
      | Replaced s1 \<Rightarrow> Execed s1
      | Fault e \<Rightarrow> Crash e)"

definition init :: "string \<Rightarrow> shell" where
  "init dir = \<lparr>child_jobs = None, heap = \<lparr>strs = \<lambda>a. None, brk = 0\<rparr>,
               error = 0, cwd = dir, out = [], calls = []\<rparr>"

text \<open>
  \<open>main\<close> on the argument vector \<open>args\<close> (\<open>argc\<close> is its length), started in the
  working directory \<open>dir\<close>.
\<close>

definition main :: "os \<Rightarrow> string \<Rightarrow> string list \<Rightarrow> iter_in list \<Rightarrow> result" where
  "main sys dir args inps =
     (if length args \<noteq> 1 \<and> length args \<noteq> 3 then exit_main (print [Usage] (init dir))
      else main_loop sys
             (if length args = 3 \<and> args ! 1 = ''-p'' then args ! 2 else ''308sh> '')
             inps (init dir))"


section \<open>Notions used to state the properties\<close>

text \<open>
  The live jobs of the registry are its first \<open>len\<close> slots. The registry is well formed
  when the allocation holds \<open>cap\<close> slots, \<open>len\<close> is at most \<open>cap\<close>, the live slots
  are written, and the live names are distinct strings of the heap, allocated before
  \<open>brk\<close>. The specification's invariant on the pids is \<open>unique_pids\<close>.
\<close>

definition live :: "'a mem_scheme \<Rightarrow> job list" where
  "live m = (case child_jobs m of None \<Rightarrow> [] | Some cj \<Rightarrow> map the (take (len cj) (jobs cj)))"

definition wf :: "'a mem_scheme \<Rightarrow> bool" where
  "wf m \<longleftrightarrow>
     (case child_jobs m of
        None \<Rightarrow> True
      | Some cj \<Rightarrow> len cj \<le> cap cj \<and> cap cj = length (jobs cj) \<and>
                   None \<notin> set (take (len cj) (jobs cj))) \<and>
     distinct (map name (live m)) \<and>
     (\<forall>j \<in> set (live m). strs (heap m) (name j) \<noteq> None \<and> name j < brk (heap m))"

definition unique_pids :: "'a mem_scheme \<Rightarrow> bool" where
  "unique_pids m \<longleftrightarrow> distinct (map pid (live m))"

text \<open>
  find followed by the read of the name through the returned pointer, as the sweep does it,
  and a sequence of calls of add_job.
\<close>

definition find_name :: "int \<Rightarrow> 'a mem_scheme \<Rightarrow> fault + string option" where
  "find_name p m =
     (case find_job_by_pid p m of
        Inl e \<Rightarrow> Inl e
      | Inr None \<Rightarrow> Inr None
      | Inr (Some i) \<Rightarrow> (case name_at m i of Inl e \<Rightarrow> Inl e | Inr n \<Rightarrow> Inr (Some n)))"

fun add_jobs :: "(int \<times> string) list \<Rightarrow> 'a mem_scheme \<Rightarrow> fault + 'a mem_scheme" where
  "add_jobs [] m = Inr m"
| "add_jobs ((p, n) # js) m = (case add_job p n m of Inl e \<Rightarrow> Inl e | Inr m1 \<Rightarrow> add_jobs js m1)"

text \<open>
  The messages that report one of the failures for which main sets \<open>error\<close>, with the
  value it sets, and the value that belongs to the last such message of an output.
\<close>

fun failure_code :: "message \<Rightarrow> int option" where
  "failure_code ReadFailed = Some (- 1)"
| "failure_code ParseFailed = Some (- 2)"
| "failure_code (Perror s) =
     (if s = ''Fork Failed'' then Some (- 3)
      else if s = ''Command Not Found'' then Some (- 4)
      else None)"
| "failure_code m = None"

fun last_failure :: "message list \<Rightarrow> int" where
  "last_failure [] = 0"
| "last_failure (m # ms) =
     (case failure_code m of
        Some c \<Rightarrow> (if list_all (\<lambda>x. failure_code x = None) ms then c else last_failure ms)
      | None \<Rightarrow> last_failure ms)"

text \<open>A registry at its capacity, with four live jobs, for examples.\<close>

definition full_registry :: mem where
  "full_registry =
     \<lparr>child_jobs = Some \<lparr>len = 4, cap = 4,
                          jobs = [Some \<lparr>pid = 11, name = 0\<rparr>, Some \<lparr>pid = 12, name = 1\<rparr>,
                                  Some \<lparr>pid = 13, name = 2\<rparr>, Some \<lparr>pid = 14, name = 3\<rparr>]\<rparr>,
       heap = \<lparr>strs = [0 \<mapsto> ''sleep'', 1 \<mapsto> ''make'', 2 \<mapsto> ''cat'', 3 \<mapsto> ''find''], brk = 4\<rparr>\<rparr>"

text \<open>
  A platform for examples: the wait macros as glibc defines them (on the integer value of
  the status), and a file system in which chdir succeeds for two absolute paths only.
\<close>

definition example_os :: os where
  "example_os =
     \<lparr>WIFEXITED = (\<lambda>st. st mod 128 = 0),
       WEXITSTATUS = (\<lambda>st. (st div 256) mod 256),
       WIFSIGNALED = (\<lambda>st. 0 < st mod 128 \<and> st mod 128 < 127),
       WTERMSIG = (\<lambda>st. st mod 128),
       WIFSTOPPED = (\<lambda>st. st mod 256 = 127),
       WSTOPSIG = (\<lambda>st. (st div 256) mod 256),
       WIFCONTINUED = (\<lambda>st. st = 65535),
       MAXPATHLEN = 4096,
       getpid = 100,
       getppid = 1,
       getenv_HOME = Some ''/home/user'',
       chdir = (\<lambda>dir path. if path = ''/home/user'' \<or> path = ''/tmp'' then Some path else None)\<rparr>"

text \<open>A shell whose registry is \<open>full_registry\<close>, and the answers of a system that is idle.\<close>

definition busy_shell :: shell where
  "busy_shell =
     \<lparr>child_jobs = child_jobs full_registry, heap = heap full_registry,
       error = 0, cwd = ''/'', out = [], calls = []\<rparr>"

definition idle :: iter_in where
  "idle = \<lparr>getline_ret = None, fork_ret = 0, child_getpid = 0, execvp_ok = False,
            wait_status = 0, reaped = []\<rparr>"

section \<open>Properties of the parser\<close>

lemma at_append_right [simp]: "at (a @ s) (length a + k) = at s k"
  by (simp add: at_def)

lemma at_append_right0 [simp]: "at (a @ s) (length a) = at s 0"
  using at_append_right [of a s 0] by simp

lemma at_append_right1 [simp]: "at (a @ s) (Suc (length a)) = at s 1"
  using at_append_right [of a s 1] by simp

lemma at_Cons_0 [simp]: "at (c # cs) 0 = c"
  by (simp add: at_def)

lemma at_Cons_Suc [simp]: "at (c # cs) (Suc k) = at cs k"
  by (simp add: at_def)

lemma at_Nil [simp]: "at [] k = NUL"
  by (simp add: at_def)

lemma at_0_hd: "at r 0 = (if r = [] then NUL else hd r)"
  by (cases r) simp_all

lemma isspace_not_amp: "isspace c \<Longrightarrow> c \<noteq> CHR ''&''"
  by (auto simp: isspace_def)

lemma isprint_not_NUL: "isprint c \<Longrightarrow> c \<noteq> NUL"
  by (auto simp: isprint_def NUL_def)

lemma isspace_not_NUL: "isspace c \<Longrightarrow> c \<noteq> NUL"
  by (auto simp: isspace_def NUL_def)

lemma not_isspace_NUL [simp]: "\<not> isspace NUL"
  by (simp add: isspace_def NUL_def)

lemma not_isprint_NUL [simp]: "\<not> isprint NUL"
  by (simp add: isprint_def NUL_def)

lemma takeWhile_dropWhile_app [simp]: "takeWhile P xs @ dropWhile P xs @ r = xs @ r"
  by (metis append_assoc takeWhile_dropWhile_id)

lemma length_takeWhile_dropWhile [simp]:
  "length (takeWhile P xs) + length (dropWhile P xs) = length xs"
  by (metis length_append takeWhile_dropWhile_id)

lemma last_dropWhile_neq: "dropWhile P xs \<noteq> [] \<Longrightarrow> last (dropWhile P xs) = last xs"
  by (metis last_appendR takeWhile_dropWhile_id)

lemma overflows_iff [simp]: "overflows n \<longleftrightarrow> INT_MAX < n"
  by (simp add: overflows_def INT_MAX_def)

lemma scan_count_step_full:
  "scan_count (a @ c # r) (length a) n =
     (if \<not> isprint c \<and> \<not> isspace c then Inr None
      else if c = CHR ''&'' then Inr (Some (n, True))
      else if INT_MAX < length a + 1 then Inl IntOverflow
      else if (isspace (at r 0) \<or> at r 0 = NUL) \<and> \<not> isspace c
        then scan_count ((a @ [c]) @ r) (length (a @ [c])) (n + 1)
      else scan_count ((a @ [c]) @ r) (length (a @ [c])) n)"
  by (subst scan_count.simps) simp

lemma scan_count_stop:
  "scan_count (a @ c # r) (length a) n =
     (if \<not> isprint c \<and> \<not> isspace c then Inr None else Inr (Some (n, True)))"
  if "\<not> isprint c \<and> \<not> isspace c \<or> c = CHR ''&''"
  using that by (subst scan_count.simps) auto

lemma scan_count_step:
  "length (a @ [c]) \<le> INT_MAX \<Longrightarrow>
   scan_count (a @ c # r) (length a) n =
     (if \<not> isprint c \<and> \<not> isspace c then Inr None
      else if c = CHR ''&'' then Inr (Some (n, True))
      else if (isspace (at r 0) \<or> at r 0 = NUL) \<and> \<not> isspace c
        then scan_count ((a @ [c]) @ r) (length (a @ [c])) (n + 1)
      else scan_count ((a @ [c]) @ r) (length (a @ [c])) n)"
  by (subst scan_count.simps) simp

lemma scan_count_end: "scan_count a (length a) n = Inr (Some (n, False))"
  by (subst scan_count.simps) simp

lemma scan_count_token:
  "\<forall>x \<in> set (c # t). \<not> isspace x \<and> isprint x \<and> x \<noteq> CHR ''&'' \<Longrightarrow> r = [] \<or> isspace (hd r) \<Longrightarrow>
   length (a @ c # t) \<le> INT_MAX \<Longrightarrow>
   scan_count (a @ (c # t) @ r) (length a) n =
   scan_count ((a @ c # t) @ r) (length (a @ c # t)) (n + 1)"
proof (induction t arbitrary: a c)
  case Nil
  then have "length (a @ [c]) \<le> INT_MAX" by simp
  then show ?case
    using Nil scan_count_step [of a c r n] by (auto simp: at_0_hd)
next
  case (Cons d t)
  have "length (a @ [c]) \<le> INT_MAX" using Cons.prems(3) by simp
  then have "scan_count (a @ (c # d # t) @ r) (length a) n =
        scan_count ((a @ [c]) @ (d # t) @ r) (length (a @ [c])) n"
    using Cons.prems scan_count_step [of a c "d # t @ r" n]
    by (auto simp: isprint_not_NUL)
  also have "\<dots> = scan_count (((a @ [c]) @ d # t) @ r) (length ((a @ [c]) @ d # t)) (n + 1)"
    using Cons.prems by (intro Cons.IH) auto
  finally show ?case by simp
qed

lemma scan_count_tokens:
  "\<forall>x \<in> set s. (isprint x \<or> isspace x) \<and> x \<noteq> CHR ''&'' \<Longrightarrow>
   s = [] \<or> isspace (last s) \<or> r = [] \<Longrightarrow>
   length (a @ s) \<le> INT_MAX \<Longrightarrow>
   scan_count (a @ s @ r) (length a) n =
   scan_count ((a @ s) @ r) (length (a @ s)) (n + length (spec_tokens s))"
proof (induction s arbitrary: a n rule: spec_tokens.induct)
  case 1
  then show ?case by simp
next
  case (2 c cs)
  show ?case
  proof (cases "isspace c")
    case True
    have "length (a @ [c]) \<le> INT_MAX" using "2.prems"(3) by simp
    then have "scan_count (a @ (c # cs) @ r) (length a) n =
          scan_count ((a @ [c]) @ cs @ r) (length (a @ [c])) n"
      using True scan_count_step [of a c "cs @ r" n] by (auto simp: isspace_not_amp)
    also have "\<dots> = scan_count (((a @ [c]) @ cs) @ r) (length ((a @ [c]) @ cs)) (n + length (spec_tokens cs))"
      using "2.prems" True by (intro "2.IH"(1)) (auto split: if_splits)
    finally show ?thesis using True by simp
  next
    case False
    let ?t = "takeWhile (\<lambda>x. \<not> isspace x) cs"
    let ?d = "dropWhile (\<lambda>x. \<not> isspace x) cs"
    have cs: "cs = ?t @ ?d" by simp
    have tok: "\<forall>x \<in> set (c # ?t). \<not> isspace x \<and> isprint x \<and> x \<noteq> CHR ''&''"
      using "2.prems"(1) False by (auto dest: set_takeWhileD)
    have nxt: "?d @ r = [] \<or> isspace (hd (?d @ r))"
    proof (cases "?d = []")
      case True
      then have "\<forall>x \<in> set (c # cs). \<not> isspace x"
        using False by (simp add: dropWhile_eq_Nil_conv)
      then have "\<not> isspace (last (c # cs))"
        using last_in_set [of "c # cs"] by blast
      then show ?thesis using "2.prems"(2) True by auto
    next
      case False
      then show ?thesis using hd_dropWhile [of "\<lambda>x. \<not> isspace x" cs] by simp
    qed
    have "scan_count (a @ (c # cs) @ r) (length a) n =
          scan_count (a @ (c # ?t) @ (?d @ r)) (length a) n"
      by simp
    also have "\<dots> = scan_count ((a @ c # ?t) @ ?d @ r) (length (a @ c # ?t)) (n + 1)"
    proof (rule scan_count_token [OF tok nxt])
      have "length ?t \<le> length cs" by (rule length_takeWhile_le)
      then show "length (a @ c # ?t) \<le> INT_MAX" using "2.prems"(3) by simp
    qed
    also have "\<dots> = scan_count (((a @ c # ?t) @ ?d) @ r) (length ((a @ c # ?t) @ ?d))
                        (n + 1 + length (spec_tokens ?d))"
    proof (rule "2.IH"(2) [OF False])
      show "\<forall>x\<in>set ?d. (isprint x \<or> isspace x) \<and> x \<noteq> CHR ''&''"
        using "2.prems"(1) by (auto dest: set_dropWhileD)
      show "?d = [] \<or> isspace (last ?d) \<or> r = []"
      proof (cases "?d = []")
        case True
        then show ?thesis by simp
      next
        case False
        then have "cs \<noteq> []" by auto
        then show ?thesis
          using "2.prems"(2) False by (simp add: last_dropWhile_neq)
      qed
      show "length ((a @ c # ?t) @ ?d) \<le> INT_MAX" using "2.prems"(3) by simp
    qed
    also have "\<dots> = scan_count ((a @ c # cs) @ r) (length (a @ c # cs))
                        (n + length (spec_tokens (c # cs)))"
      using False by simp
    finally show ?thesis .
  qed
qed

lemma scan_copy_step:
  "length (a @ [c]) \<le> INT_MAX \<Longrightarrow>
   scan_copy (a @ c # r) (length a) start count cm =
     (if isspace c \<and> \<not> isspace (at r 0)
        then scan_copy ((a @ [c]) @ r) (length (a @ [c])) (length (a @ [c])) count cm
      else if \<not> isspace c \<and> (isspace (at r 0) \<or> at r 0 = NUL)
        then (case copy_token cm count (strndup (a @ c # r) start (length a - start + 1)) of
                Inl e \<Rightarrow> Inl e
              | Inr cm1 \<Rightarrow> scan_copy ((a @ [c]) @ r) (length (a @ [c])) start (count + 1) cm1)
      else scan_copy ((a @ [c]) @ r) (length (a @ [c])) start count cm)"
  by (subst scan_copy.simps) (simp cong: sum.case_cong)

lemma scan_copy_end: "scan_copy a (length a) start count cm = Inr cm"
  by (subst scan_copy.simps) simp

lemma strndup_token:
  "\<forall>x \<in> set t. x \<noteq> NUL \<Longrightarrow> strndup (a @ t @ r) (length a) (length t) = t"
  by (simp add: strndup_def takeWhile_eq_all_conv)

lemma scan_copy_token:
  "\<forall>x \<in> set (t1 @ c # t2). \<not> isspace x \<and> x \<noteq> NUL \<Longrightarrow> r = [] \<or> isspace (hd r) \<Longrightarrow>
   length (a @ t1 @ c # t2) \<le> INT_MAX \<Longrightarrow>
   scan_copy (a @ t1 @ (c # t2) @ r) (length (a @ t1)) (length a) count cm =
     (case copy_token cm count (t1 @ c # t2) of
        Inl e \<Rightarrow> Inl e
      | Inr cm1 \<Rightarrow> scan_copy ((a @ t1 @ c # t2) @ r) (length (a @ t1 @ c # t2)) (length a)
                      (count + 1) cm1)"
proof (induction t2 arbitrary: t1 c)
  case Nil
  have s: "strndup ((a @ t1) @ c # r) (length a) (length (a @ t1) - length a + 1) = t1 @ [c]"
    using Nil.prems(1) strndup_token [of "t1 @ [c]" a r] by simp
  have "length ((a @ t1) @ [c]) \<le> INT_MAX" using Nil.prems(3) by simp
  then show ?case
    using Nil.prems scan_copy_step [of "a @ t1" c r "length a" count cm] s
    by (auto simp: at_0_hd cong: sum.case_cong)
next
  case (Cons d t2)
  have "length ((a @ t1) @ [c]) \<le> INT_MAX" using Cons.prems(3) by simp
  then have "scan_copy (a @ t1 @ (c # d # t2) @ r) (length (a @ t1)) (length a) count cm =
        scan_copy (a @ (t1 @ [c]) @ (d # t2) @ r) (length (a @ t1 @ [c])) (length a) count cm"
    using Cons.prems scan_copy_step [of "a @ t1" c "d # t2 @ r" "length a" count cm]
    by auto
  also have "\<dots> = (case copy_token cm count ((t1 @ [c]) @ d # t2) of
        Inl e \<Rightarrow> Inl e
      | Inr cm1 \<Rightarrow> scan_copy ((a @ (t1 @ [c]) @ d # t2) @ r) (length (a @ (t1 @ [c]) @ d # t2)) (length a)
                      (count + 1) cm1)"
    using Cons.prems by (intro Cons.IH) auto
  finally show ?case by (simp cong: sum.case_cong)
qed

lemma scan_copy_tokens:
  "\<forall>x \<in> set s. x \<noteq> NUL \<Longrightarrow> (s \<noteq> [] \<and> \<not> isspace (hd s) \<longrightarrow> start = length a) \<Longrightarrow>
   count + length (spec_tokens s) \<le> length (argv cm) \<Longrightarrow>
   length (a @ s) \<le> INT_MAX \<Longrightarrow>
   scan_copy (a @ s) (length a) start count cm = Inr (put_tokens cm count (spec_tokens s))"
proof (induction s arbitrary: a start count cm rule: spec_tokens.induct)
  case 1
  then show ?case by (simp add: scan_copy_end)
next
  case (2 c cs)
  show ?case
  proof (cases "isspace c")
    case True
    let ?start = "if \<not> isspace (at cs 0) then length (a @ [c]) else start"
    have "length (a @ [c]) \<le> INT_MAX" using "2.prems"(4) by simp
    then have "scan_copy (a @ c # cs) (length a) start count cm =
          scan_copy ((a @ [c]) @ cs) (length (a @ [c])) ?start count cm"
      using True scan_copy_step [of a c cs start count cm] by auto
    also have "\<dots> = Inr (put_tokens cm count (spec_tokens cs))"
      using "2.prems" True by (intro "2.IH"(1)) (auto simp: at_0_hd)
    finally show ?thesis using True by simp
  next
    case False
    let ?t = "takeWhile (\<lambda>x. \<not> isspace x) cs"
    let ?d = "dropWhile (\<lambda>x. \<not> isspace x) cs"
    let ?cm1 = "(if count = 0 then cm\<lparr>cmd := Some (c # ?t)\<rparr> else cm)\<lparr>argv := (argv cm)[count := Ptr (c # ?t)]\<rparr>"
    have st: "start = length a" using "2.prems"(2) False by simp
    have tok: "\<forall>x \<in> set ([] @ c # ?t). \<not> isspace x \<and> x \<noteq> NUL"
      using "2.prems"(1) False by (auto dest: set_takeWhileD)
    have nxt: "?d = [] \<or> isspace (hd ?d)"
      using hd_dropWhile [of "\<lambda>x. \<not> isspace x" cs] by auto
    have cnt: "count < length (argv cm)" using "2.prems"(3) False by simp
    have ct: "copy_token cm count (c # ?t) = Inr ?cm1"
      using cnt by (simp add: copy_token_def store_def)
    have "scan_copy (a @ c # cs) (length a) start count cm =
          scan_copy (a @ [] @ (c # ?t) @ ?d) (length (a @ [])) (length a) count cm"
      using st by simp
    also have "\<dots> = (case copy_token cm count ([] @ c # ?t) of
        Inl e \<Rightarrow> Inl e
      | Inr cm1 \<Rightarrow> scan_copy ((a @ [] @ c # ?t) @ ?d) (length (a @ [] @ c # ?t)) (length a)
                      (count + 1) cm1)"
    proof (rule scan_copy_token [OF tok nxt])
      have "length ?t \<le> length cs" by (rule length_takeWhile_le)
      then show "length (a @ [] @ c # ?t) \<le> INT_MAX" using "2.prems"(4) by simp
    qed
    also have "\<dots> = scan_copy ((a @ c # ?t) @ ?d) (length (a @ c # ?t)) (length a) (count + 1) ?cm1"
      using ct by simp
    also have "\<dots> = Inr (put_tokens ?cm1 (count + 1) (spec_tokens ?d))"
    proof (rule "2.IH"(2) [OF False])
      show "\<forall>x\<in>set ?d. x \<noteq> NUL" using "2.prems"(1) by (auto dest: set_dropWhileD)
      show "?d \<noteq> [] \<and> \<not> isspace (hd ?d) \<longrightarrow> length a = length (a @ c # ?t)"
        using nxt by auto
      show "count + 1 + length (spec_tokens ?d) \<le> length (argv ?cm1)"
        using "2.prems"(3) False by simp
      show "length ((a @ c # ?t) @ ?d) \<le> INT_MAX" using "2.prems"(4) by simp
    qed
    finally show ?thesis using False by simp
  qed
qed

lemma argv_put_tokens:
  "count + length ts \<le> length (argv cm) \<Longrightarrow>
   argv (put_tokens cm count ts) = take count (argv cm) @ map Ptr ts @ drop (count + length ts) (argv cm)"
proof (induction ts arbitrary: cm count)
  case Nil
  then show ?case by simp
next
  case (Cons t ts)
  have "count < length (argv cm)" using Cons.prems by simp
  then have upd: "(argv cm)[count := Ptr t] = take count (argv cm) @ Ptr t # drop (Suc count) (argv cm)"
    by (rule upd_conv_take_nth_drop)
  show ?case
    using Cons.prems by (simp add: Cons.IH upd take_Suc_conv_app_nth add.commute)
qed

lemma cmd_put_tokens_pos: "0 < count \<Longrightarrow> cmd (put_tokens cm count ts) = cmd cm"
  by (induction ts arbitrary: cm count) simp_all

lemma cmd_put_tokens_0: "cmd (put_tokens cm 0 (t # ts)) = Some t"
  by (simp add: cmd_put_tokens_pos)

lemma spec_tokens_spaces: "\<forall>x \<in> set s. isspace x \<Longrightarrow> spec_tokens s = []"
  by (induction s) simp_all

lemma spec_tokens_append:
  "s = [] \<or> isspace (last s) \<Longrightarrow> spec_tokens (s @ r) = spec_tokens s @ spec_tokens r"
proof (induction s rule: spec_tokens.induct)
  case 1
  then show ?case by simp
next
  case (2 c cs)
  show ?case
  proof (cases "isspace c")
    case True
    then show ?thesis using 2 by (auto split: if_splits)
  next
    case False
    then have ne: "cs \<noteq> []" and sp: "isspace (last cs)" using "2.prems" by (auto split: if_splits)
    then have ex: "\<exists>x \<in> set cs. \<not> \<not> isspace x" using last_in_set by blast
    then obtain x where x: "x \<in> set cs" "\<not> \<not> isspace x" by blast
    have tw: "takeWhile (\<lambda>x. \<not> isspace x) (cs @ r) = takeWhile (\<lambda>x. \<not> isspace x) cs"
      using x by (rule takeWhile_append1)
    have dw: "dropWhile (\<lambda>x. \<not> isspace x) (cs @ r) = dropWhile (\<lambda>x. \<not> isspace x) cs @ r"
      using x by (rule dropWhile_append1)
    have dne: "dropWhile (\<lambda>x. \<not> isspace x) cs \<noteq> []"
      using x by (auto simp: dropWhile_eq_Nil_conv)
    have "spec_tokens (dropWhile (\<lambda>x. \<not> isspace x) cs @ r) =
          spec_tokens (dropWhile (\<lambda>x. \<not> isspace x) cs) @ spec_tokens r"
      using dne sp ne by (intro "2.IH"(2) [OF False]) (simp add: last_dropWhile_neq)
    then show ?thesis using False tw dw by simp
  qed
qed

lemma spec_tokens_marker:
  "\<forall>x \<in> set post. isspace x \<Longrightarrow> spec_tokens (CHR ''&'' # post) = [''&'']"
  by (cases post) (simp_all add: isspace_def spec_tokens_spaces)

lemma spec_tokens_subset: "t \<in> set (spec_tokens s) \<Longrightarrow> set t \<subseteq> set s"
proof (induction s rule: spec_tokens.induct)
  case 1
  then show ?case by simp
next
  case (2 c cs)
  show ?case
  proof (cases "isspace c")
    case True
    then show ?thesis using 2 by auto
  next
    case False
    then consider "t = c # takeWhile (\<lambda>x. \<not> isspace x) cs"
      | "t \<in> set (spec_tokens (dropWhile (\<lambda>x. \<not> isspace x) cs))"
      using "2.prems" by auto
    then show ?thesis
    proof cases
      case 1
      then show ?thesis by (auto dest: set_takeWhileD)
    next
      case 2
      then have "set t \<subseteq> set (dropWhile (\<lambda>x. \<not> isspace x) cs)"
        using "2.IH"(2) [OF False] by simp
      then show ?thesis by (auto dest: set_dropWhileD)
    qed
  qed
qed

lemma args_of_terminated: "args_of (map Ptr ts @ Null # a) = Some ts"
  by (induction ts) simp_all

lemma scan_count_bad_byte:
  "CHR ''&'' \<notin> set s \<Longrightarrow> \<not> isprint c \<Longrightarrow> \<not> isspace c \<Longrightarrow> length (a @ s) \<le> INT_MAX \<Longrightarrow>
   scan_count (a @ s @ c # r) (length a) n = Inr None"
proof (induction s arbitrary: a n)
  case Nil
  then show ?case using scan_count_stop [of c a r n] by simp
next
  case (Cons x s)
  have ih: "\<And>k. scan_count ((a @ [x]) @ s @ c # r) (length (a @ [x])) k = Inr None"
    using Cons.prems by (intro Cons.IH) auto
  have "length (a @ [x]) \<le> INT_MAX" using Cons.prems(4) by simp
  then show ?case
    using Cons.prems(1) scan_count_step [of a x "s @ c # r" n] ih by auto
qed

lemma marker_stop: "scan_count (a @ CHR ''&'' # r) (length a) n = Inr (Some (n, True))"
  using scan_count_stop [of "CHR ''&''" a r n] by (simp add: isprint_def)

lemma gen_command_spaces:
  assumes "\<forall>x \<in> set ws. isspace x" and "length ws \<le> INT_MAX"
  shows "gen_command ws = Inr (SPACES, None)"
    and "gen_command (ws @ CHR ''&'' # r) = Inr (SPACES, None)"
proof -
  have clean: "\<forall>x \<in> set ws. (isprint x \<or> isspace x) \<and> x \<noteq> CHR ''&''"
    using assms(1) by (auto simp: isspace_not_amp)
  have "scan_count ([] @ ws @ []) (length ([] :: string)) 0 =
        scan_count (([] @ ws) @ []) (length ([] @ ws)) (0 + length (spec_tokens ws))"
    using clean assms(2) by (intro scan_count_tokens) auto
  then have "scan_count ws 0 0 = Inr (Some (0, False))"
    using assms(1) by (simp add: spec_tokens_spaces scan_count_end)
  then show "gen_command ws = Inr (SPACES, None)"
    by (simp add: gen_command_def)
  have "scan_count ([] @ ws @ CHR ''&'' # r) (length ([] :: string)) 0 =
        scan_count (([] @ ws) @ CHR ''&'' # r) (length ([] @ ws)) (0 + length (spec_tokens ws))"
  proof (cases "ws = []")
    case True
    then show ?thesis by simp
  next
    case False
    then have "isspace (last ws)" using assms(1) by simp
    then show ?thesis using clean assms(2) by (intro scan_count_tokens) auto
  qed
  then have "scan_count (ws @ CHR ''&'' # r) 0 0 = Inr (Some (0, True))"
    using assms(1) marker_stop [of ws r 0]
    by (simp add: spec_tokens_spaces)
  then show "gen_command (ws @ CHR ''&'' # r) = Inr (SPACES, None)"
    by (simp add: gen_command_def)
qed

lemma gen_command_spaces_overflow:
  assumes sp: "\<forall>x \<in> set ws. isspace x" and long: "INT_MAX < length ws"
  shows "gen_command ws = Inl IntOverflow"
proof -
  let ?a = "take INT_MAX ws"
  let ?c = "ws ! INT_MAX"
  let ?r = "drop (Suc INT_MAX) ws"
  have ws: "ws = ?a @ ?c # ?r" using long by (rule id_take_nth_drop)
  have la: "length ?a = INT_MAX" using long by simp
  have c: "isspace ?c" using sp long by simp
  have spa: "\<forall>x \<in> set ?a. isspace x"
  proof
    fix x assume "x \<in> set ?a"
    then have "x \<in> set ws" by (rule in_set_takeD)
    with sp show "isspace x" by (rule bspec)
  qed
  have clean: "\<forall>x \<in> set ?a. (isprint x \<or> isspace x) \<and> x \<noteq> CHR ''&''"
  proof
    fix x assume "x \<in> set ?a"
    with spa have "isspace x" by (rule bspec)
    then show "(isprint x \<or> isspace x) \<and> x \<noteq> CHR ''&''"
      using isspace_not_amp [of x] by simp
  qed
  have last: "?a = [] \<or> isspace (last ?a) \<or> ?c # ?r = []"
    using spa by (cases "?a = []") auto
  have "scan_count ([] @ ?a @ ?c # ?r) (length ([] :: string)) 0 =
        scan_count (([] @ ?a) @ ?c # ?r) (length ([] @ ?a)) (0 + length (spec_tokens ?a))"
    using clean last la by (intro scan_count_tokens) simp_all
  then have "scan_count (?a @ ?c # ?r) 0 0 = scan_count (?a @ ?c # ?r) (length ?a) 0"
    using spa by (simp add: spec_tokens_spaces)
  also have "\<dots> = Inl IntOverflow"
    using c la scan_count_step_full [of ?a ?c ?r 0] by (auto simp: isspace_not_amp)
  finally have "scan_count (?a @ ?c # ?r) 0 0 = Inl IntOverflow" .
  then have "scan_count ws 0 0 = Inl IntOverflow" by (simp only: ws [symmetric])
  then show ?thesis by (simp add: gen_command_def)
qed

lemma scan_count_before_marker:
  assumes clean: "\<forall>x \<in> set pre. (isprint x \<or> isspace x) \<and> x \<noteq> CHR ''&''"
    and sep: "isspace (last pre)"
    and len: "length pre \<le> INT_MAX"
  shows "scan_count (pre @ CHR ''&'' # post) 0 0 = Inr (Some (length (spec_tokens pre), True))"
proof -
  have "scan_count ([] @ pre @ CHR ''&'' # post) (length ([] :: string)) 0 =
        scan_count (([] @ pre) @ CHR ''&'' # post) (length ([] @ pre)) (0 + length (spec_tokens pre))"
    using clean sep len by (intro scan_count_tokens) auto
  then show ?thesis
    using marker_stop [of pre post "length (spec_tokens pre)"] by simp
qed

lemma spec_tokens_before_marker:
  assumes sep: "isspace (last pre)"
    and post: "\<forall>x \<in> set post. isspace x"
  shows "spec_tokens (pre @ CHR ''&'' # post) = spec_tokens pre @ [''&'']"
proof -
  have "spec_tokens (pre @ CHR ''&'' # post) = spec_tokens pre @ spec_tokens (CHR ''&'' # post)"
    using sep by (intro spec_tokens_append) simp
  then show ?thesis
    using spec_tokens_marker [OF post] by (simp only:)
qed

lemma scan_copy_line:
  assumes nonul: "\<forall>x \<in> set line. x \<noteq> NUL"
   and "length (spec_tokens line) \<le> length (argv c0)"
   and "length line \<le> INT_MAX"
  shows "scan_copy line 0 0 0 c0 = Inr (put_tokens c0 0 (spec_tokens line))"
  using scan_copy_tokens [of line 0 "[]" 0 c0] assms by simp

lemma drop_replicate_one [simp]: "drop n (x # replicate n x) = [x]"
  by (induction n) simp_all

lemma argv_after_copy:
  "argv (put_tokens \<lparr>cmd = None, argv = replicate (length ts + 2) Uninit\<rparr> 0 (ts @ [''&''])) =
     map Ptr ts @ [Ptr ''&'', Uninit]"
  using argv_put_tokens [of 0 "ts @ [''&'']" "\<lparr>cmd = None, argv = replicate (length ts + 2) Uninit\<rparr>"]
  by simp

lemma store_terminator: "store (map Ptr ts @ [Ptr ''&'', Uninit]) (length ts) Null = Inr (map Ptr ts @ [Null, Uninit])"
  using list_update_length [of "map Ptr ts" "Ptr ''&''" "[Uninit]" Null]
  by (simp add: store_def)

lemma cmd_after_copy: "ts \<noteq> [] \<Longrightarrow> cmd (put_tokens c0 0 (ts @ r)) = Some (hd ts)"
  by (cases ts) (simp_all add: cmd_put_tokens_pos)

lemma text_byte_not_NUL: "isprint x \<or> isspace x \<Longrightarrow> x \<noteq> NUL"
  using isprint_not_NUL isspace_not_NUL by blast

text \<open>
  Claim C1, as the code has it. Let the line be \<open>pre\<close>, the marker \<open>&\<close> and \<open>post\<close>,
  where \<open>pre\<close> consists of printable and whitespace bytes, holds no \<open>&\<close>, has at
  least one token and ends in whitespace (so the marker is a token of its own), and
  \<open>post\<close> is whitespace, and let the line be shorter than 2^31 bytes (the index of the
  loops is an \<open>int\<close>). Then gen_command returns BACKGROUND, the argument vector up to
  its NULL is exactly the tokens of \<open>pre\<close>, the command name is the first of them, and
  \<open>&\<close> is not among them.
\<close>

theorem gen_command_background:
  assumes clean: "\<forall>x \<in> set pre. (isprint x \<or> isspace x) \<and> x \<noteq> CHR ''&''"
    and toks: "spec_tokens pre \<noteq> []"
    and sep: "isspace (last pre)"
    and post: "\<forall>x \<in> set post. isspace x"
    and len: "length (pre @ CHR ''&'' # post) \<le> INT_MAX"
  shows "\<exists>c. gen_command (pre @ CHR ''&'' # post) = Inr (BACKGROUND, Some c) \<and>
             args_of (argv c) = Some (spec_tokens pre) \<and>
             cmd c = Some (hd (spec_tokens pre)) \<and>
             ''&'' \<notin> set (spec_tokens pre)"
proof -
  let ?line = "pre @ CHR ''&'' # post"
  let ?n = "length (spec_tokens pre)"
  let ?c0 = "\<lparr>cmd = None, argv = replicate (?n + 2) Uninit\<rparr>"
  let ?c1 = "put_tokens ?c0 0 (spec_tokens pre @ [''&''])"
  have n: "?n \<noteq> 0" using toks by simp
  have lpre: "length pre \<le> INT_MAX" using len by simp
  have cnt: "scan_count ?line 0 0 = Inr (Some (?n, True))"
    using clean sep lpre by (rule scan_count_before_marker)
  have tl: "spec_tokens ?line = spec_tokens pre @ [''&'']"
    using sep post by (rule spec_tokens_before_marker)
  have nonul: "\<forall>x \<in> set ?line. x \<noteq> NUL"
  proof
    fix x assume "x \<in> set ?line"
    then consider "x \<in> set pre" | "x = CHR ''&''" | "x \<in> set post" by auto
    then have "isprint x \<or> isspace x"
    proof cases
      case 1
      with clean have "(isprint x \<or> isspace x) \<and> x \<noteq> CHR ''&''" by (rule bspec)
      then show ?thesis by (rule conjunct1)
    next
      case 2
      then show ?thesis by (simp add: isprint_def)
    next
      case 3
      with post have "isspace x" by (rule bspec)
      then show ?thesis by (rule disjI2)
    qed
    then show "x \<noteq> NUL" by (rule text_byte_not_NUL)
  qed
  have "scan_copy ?line 0 0 0 ?c0 = Inr (put_tokens ?c0 0 (spec_tokens ?line))"
  proof (rule scan_copy_line [OF nonul])
    show "length (spec_tokens ?line) \<le> length (argv ?c0)" by (simp add: tl)
    show "length ?line \<le> INT_MAX" by (rule len)
  qed
  then have cpy: "scan_copy ?line 0 0 0 ?c0 = Inr ?c1"
    by (simp only: tl)
  have av: "argv ?c1 = map Ptr (spec_tokens pre) @ [Ptr ''&'', Uninit]"
    by (rule argv_after_copy)
  have st: "store (argv ?c1) ?n Null = Inr (map Ptr (spec_tokens pre) @ [Null, Uninit])"
    unfolding av by (rule store_terminator)
  have cm: "cmd ?c1 = Some (hd (spec_tokens pre))"
    using toks by (rule cmd_after_copy)
  have "gen_command ?line =
        (case scan_copy ?line 0 0 0 ?c0 of
           Inl e \<Rightarrow> Inl e
         | Inr c1 \<Rightarrow>
             (case store (argv c1) ?n Null of
                Inl e \<Rightarrow> Inl e
              | Inr a \<Rightarrow> Inr (BACKGROUND, Some (c1\<lparr>argv := a\<rparr>))))"
    unfolding gen_command_def cnt using n by simp
  then have res: "gen_command ?line =
        Inr (BACKGROUND, Some (?c1\<lparr>argv := map Ptr (spec_tokens pre) @ [Null, Uninit]\<rparr>))"
    by (simp only: cpy sum.case st)
  have amp: "''&'' \<notin> set (spec_tokens pre)"
  proof
    assume "''&'' \<in> set (spec_tokens pre)"
    then have "set ''&'' \<subseteq> set pre" by (rule spec_tokens_subset)
    then have "CHR ''&'' \<in> set pre" by simp
    with clean have "(isprint (CHR ''&'') \<or> isspace (CHR ''&'')) \<and> CHR ''&'' \<noteq> CHR ''&''"
      by (rule bspec)
    then show False by simp
  qed
  have "args_of (argv (?c1\<lparr>argv := map Ptr (spec_tokens pre) @ [Null, Uninit]\<rparr>)) = Some (spec_tokens pre)"
    by (simp add: args_of_terminated)
  moreover have "cmd (?c1\<lparr>argv := map Ptr (spec_tokens pre) @ [Null, Uninit]\<rparr>) = Some (hd (spec_tokens pre))"
    using cm by simp
  ultimately show ?thesis
    using res amp by blast
qed

text \<open>
  Claim C1 at the line \<open>sleep 5 &\<close> with its newline: the tokens are \<open>sleep\<close> and
  \<open>5\<close>.
\<close>

theorem gen_command_background_witness:
  "\<exists>c. gen_command (''sleep 5 '' @ CHR ''&'' # [CHR 0x0A]) = Inr (BACKGROUND, Some c) \<and>
       args_of (argv c) = Some [''sleep'', ''5''] \<and> cmd c = Some ''sleep'' \<and>
       ''&'' \<notin> set [''sleep'', ''5'']"
proof -
  have 1: "\<forall>x \<in> set ''sleep 5 ''. (isprint x \<or> isspace x) \<and> x \<noteq> CHR ''&''" by code_simp
  have 2: "spec_tokens ''sleep 5 '' \<noteq> []" by code_simp
  have 3: "isspace (last ''sleep 5 '')" by code_simp
  have 4: "\<forall>x \<in> set [CHR 0x0A]. isspace x" by code_simp
  have 5: "spec_tokens ''sleep 5 '' = [''sleep'', ''5'']" by code_simp
  have 6: "length (''sleep 5 '' @ CHR ''&'' # [CHR 0x0A]) \<le> INT_MAX" by (simp add: INT_MAX_def)
  show ?thesis using gen_command_background [OF 1 2 3 4 6] unfolding 5 by simp
qed

text \<open>
  Claim C1 as it is stated fails: in the line \<open>a&b &\<close> the last token is \<open>&\<close> and the
  token \<open>a&b\<close> precedes it, but the first loop stops at the first \<open>&\<close> with no token
  counted, and gen_command returns SPACES without a command.
\<close>

theorem gen_command_background_counterexample:
  "spec_tokens (''a&b &'' @ [CHR 0x0A]) = [''a&b'', ''&''] \<and>
   gen_command (''a&b &'' @ [CHR 0x0A]) = Inr (SPACES, None)"
  by code_simp

text \<open>
  Claim C2, as the code has it: a byte that is neither printable nor whitespace makes
  gen_command return FAIL, with no command, when no \<open>&\<close> stands before it in the line
  and fewer than 2^31 bytes stand before it (the index of the loop is an \<open>int\<close>).
\<close>

theorem gen_command_fail:
  assumes "CHR ''&'' \<notin> set pre" and "\<not> isprint c" and "\<not> isspace c"
    and "length pre \<le> INT_MAX"
  shows "gen_command (pre @ c # post) = Inr (FAIL, None)"
proof -
  have "length ([] @ pre) \<le> INT_MAX" using assms(4) by simp
  with assms(1,2,3)
  have "scan_count ([] @ pre @ c # post) (length ([] :: string)) 0 = Inr None"
    by (rule scan_count_bad_byte)
  then show ?thesis by (simp add: gen_command_def)
qed

text \<open>Claim C2 at the line \<open>ls\<close>, space, the byte 0x07, \<open> &\<close>.\<close>

theorem gen_command_fail_witness:
  "gen_command (''ls '' @ CHR 0x07 # '' &'') = Inr (FAIL, None)"
proof -
  have 1: "CHR ''&'' \<notin> set ''ls ''" by code_simp
  have 2: "\<not> isprint (CHR 0x07)" by code_simp
  have 3: "\<not> isspace (CHR 0x07)" by code_simp
  have 4: "length ''ls '' \<le> INT_MAX" by (simp add: INT_MAX_def)
  show ?thesis using gen_command_fail [OF 1 2 3 4] .
qed

text \<open>
  Claim C2 as it is stated fails: the line \<open>a &\<close> followed by the byte 0x01 and a newline
  holds a byte that is neither printable nor whitespace, after the \<open>&\<close>, and gen_command
  returns BACKGROUND with a command.
\<close>

theorem gen_command_fail_counterexample:
  "\<not> isprint (CHR 0x01) \<and> \<not> isspace (CHR 0x01) \<and>
   gen_command (''a &'' @ [CHR 0x01, CHR 0x0A]) =
     Inr (BACKGROUND, Some \<lparr>cmd = Some ''a'', argv = [Ptr ''a'', Null, Uninit]\<rparr>)"
  by code_simp

text \<open>
  Claim C9 fails on the code: for the line \<open>a & b c\<close> with its newline the first loop
  accepts the line and counts one argument, so \<open>argv\<close> has three slots, and the second
  loop, which does not stop at the marker, writes its fourth token at index 3.
\<close>

theorem gen_command_overflow:
  "scan_count (''a & b c'' @ [CHR 0x0A]) 0 0 = Inr (Some (1, True)) \<and>
   gen_command (''a & b c'' @ [CHR 0x0A]) = Inl (OutOfBounds 3 3)"
  by code_simp

section \<open>Properties of the job registry\<close>

lemma job_at_Some: "i < length js \<Longrightarrow> js ! i = Some j \<Longrightarrow> job_at js i = Inr j"
  by (simp add: job_at_def)

lemma live_Some:
  "child_jobs m = Some cj \<Longrightarrow> live m = map the (take (len cj) (jobs cj))"
  by (simp add: live_def)

lemma live_None: "child_jobs m = None \<Longrightarrow> live m = []"
  by (simp add: live_def)

lemma wf_slot:
  assumes "wf m" "child_jobs m = Some cj" "i < len cj"
  shows "i < length (jobs cj)" "jobs cj ! i = Some (live m ! i)" "length (live m) = len cj"
proof -
  have le: "len cj \<le> length (jobs cj)" and nn: "None \<notin> set (take (len cj) (jobs cj))"
    using assms(1,2) by (auto simp: wf_def)
  show "i < length (jobs cj)" using le assms(3) by simp
  show len: "length (live m) = len cj" using le assms(2) by (simp add: live_def)
  have "take (len cj) (jobs cj) ! i \<in> set (take (len cj) (jobs cj))"
    using le assms(3) by (intro nth_mem) simp
  then have "take (len cj) (jobs cj) ! i \<noteq> None" using nn by metis
  then have "jobs cj ! i \<noteq> None" using assms(3) by simp
  then show "jobs cj ! i = Some (live m ! i)"
    using assms(2,3) le by (auto simp: live_def)
qed

lemma wf_length: "wf m \<Longrightarrow> child_jobs m = Some cj \<Longrightarrow> length (live m) = len cj"
  by (auto simp: wf_def live_def)

text \<open>The loops over a range without a match.\<close>

lemma find_loop_skip:
  "k \<le> len0 \<Longrightarrow> \<forall>x. i \<le> x \<and> x < k \<longrightarrow> x < length js \<and> (\<exists>j. js ! x = Some j \<and> pid j \<noteq> p) \<Longrightarrow>
   i \<le> k \<Longrightarrow> find_loop p i len0 js = find_loop p k len0 js"
proof (induction "k - i" arbitrary: i)
  case 0
  then show ?case by simp
next
  case (Suc d)
  then have i: "i < k" "i < len0" by auto
  then obtain j where j: "i < length js" "js ! i = Some j" "pid j \<noteq> p"
    using Suc.prems(2) by auto
  have "find_loop p i len0 js = find_loop p (i + 1) len0 js"
    using i j by (subst find_loop.simps) (simp add: job_at_def)
  also have "\<dots> = find_loop p k len0 js"
    using Suc i by (intro Suc.hyps(1)) auto
  finally show ?case .
qed

lemma find_loop_end: "find_loop p len0 len0 js = Inr None"
  by (subst find_loop.simps) simp

lemma find_loop_hit:
  "i < len0 \<Longrightarrow> i < length js \<Longrightarrow> js ! i = Some j \<Longrightarrow> pid j = p \<Longrightarrow>
   find_loop p i len0 js = Inr (Some i)"
  by (subst find_loop.simps) (simp add: job_at_def)

lemma free_loop_skip:
  "k \<le> len0 \<Longrightarrow>
   \<forall>x. i \<le> x \<and> x < k \<longrightarrow> x < length (jobs cj) \<and> (\<exists>j. jobs cj ! x = Some j \<and> pid j \<noteq> p) \<Longrightarrow>
   i \<le> k \<Longrightarrow> free_loop p i len0 cj h = free_loop p k len0 cj h"
proof (induction "k - i" arbitrary: i)
  case 0
  then show ?case by simp
next
  case (Suc d)
  then have i: "i < k" "i < len0" by auto
  then obtain j where j: "i < length (jobs cj)" "jobs cj ! i = Some j" "pid j \<noteq> p"
    using Suc.prems(2) by auto
  have "free_loop p i len0 cj h = free_loop p (i + 1) len0 cj h"
    using i j by (subst free_loop.simps) (simp add: job_at_def)
  also have "\<dots> = free_loop p k len0 cj h"
    using Suc i by (intro Suc.hyps(1)) auto
  finally show ?case .
qed

lemma free_loop_end: "free_loop p len0 len0 cj h = Inr (cj, h)"
  by (subst free_loop.simps) simp

lemma free_loop_hit:
  "i < len0 \<Longrightarrow> i < length (jobs cj) \<Longrightarrow> jobs cj ! i = Some j \<Longrightarrow> pid j = p \<Longrightarrow>
   free_loop p i len0 cj h =
     (case remove_slot i len0 j cj h of
        Inl e \<Rightarrow> Inl e
      | Inr (cj1, h1) \<Rightarrow> free_loop p (i + 1) len0 cj1 h1)"
  by (subst free_loop.simps) (simp add: job_at_def)

lemma mem_same [simp]: "child_jobs m = Some cj \<Longrightarrow> m\<lparr>child_jobs := Some cj, heap := heap m\<rparr> = m"
  by (cases m) simp

lemma free_allocated:
  "strs h a \<noteq> None \<Longrightarrow> free h a = Inr (h\<lparr>strs := (strs h)(a := None)\<rparr>)"
  by (auto simp: free_def)

lemma free_job_by_pid_absent:
  assumes "wf m" "p \<notin> set (map pid (live m))"
  shows "free_job_by_pid p m = Inr m"
proof (cases "child_jobs m")
  case None
  then show ?thesis by (simp add: free_job_by_pid_def)
next
  case (Some cj)
  have no: "\<forall>x. 0 \<le> x \<and> x < len cj \<longrightarrow>
              x < length (jobs cj) \<and> (\<exists>j. jobs cj ! x = Some j \<and> pid j \<noteq> p)"
  proof (intro allI impI)
    fix x assume "0 \<le> x \<and> x < len cj"
    then have x: "x < len cj" by simp
    have "live m ! x \<in> set (live m)"
      using wf_slot(3) [OF assms(1) Some x] x by simp
    then have "pid (live m ! x) \<noteq> p" using assms(2) by auto
    then show "x < length (jobs cj) \<and> (\<exists>j. jobs cj ! x = Some j \<and> pid j \<noteq> p)"
      using wf_slot(1,2) [OF assms(1) Some x] by simp
  qed
  have "free_loop p 0 (len cj) cj (heap m) = free_loop p (len cj) (len cj) cj (heap m)"
    using no by (intro free_loop_skip) auto
  then have "free_loop p 0 (len cj) cj (heap m) = Inr (cj, heap m)"
    by (simp add: free_loop_end)
  then show ?thesis using Some by (simp add: free_job_by_pid_def)
qed

lemma free_job_by_pid_present:
  assumes wf: "wf m" and un: "unique_pids m" and cj: "child_jobs m = Some cj"
    and i: "i < len cj" and j: "jobs cj ! i = Some j" and p: "pid j = p"
  shows "free_job_by_pid p m =
           Inr (m\<lparr>child_jobs := Some (cj\<lparr>jobs := (if i < len cj - 1
                                                       then (jobs cj)[i := jobs cj ! (len cj - 1)]
                                                       else jobs cj),
                                            len := len cj - 1\<rparr>),
                   heap := (heap m)\<lparr>strs := (strs (heap m))(name j := None)\<rparr>\<rparr>)"
proof -
  let ?h1 = "(heap m)\<lparr>strs := (strs (heap m))(name j := None)\<rparr>"
  let ?cj1 = "cj\<lparr>jobs := (if i < len cj - 1 then (jobs cj)[i := jobs cj ! (len cj - 1)] else jobs cj),
                 len := len cj - 1\<rparr>"
  have lj: "live m ! i = j" using wf_slot(2) [OF wf cj i] j by simp
  have ll: "length (live m) = len cj" using wf cj by (rule wf_length)
  have le: "len cj \<le> length (jobs cj)" using wf cj by (auto simp: wf_def)
  have other: "pid (live m ! x) \<noteq> p" if "x < len cj" "x \<noteq> i" for x
  proof
    assume "pid (live m ! x) = p"
    then have "map pid (live m) ! x = map pid (live m) ! i"
      using that i ll lj p by simp
    then have "x = i"
      using un that i ll nth_eq_iff_index_eq [of "map pid (live m)" x i]
      by (simp add: unique_pids_def)
    then show False using that by simp
  qed
  have slot: "x < length (jobs cj) \<and> (\<exists>j'. jobs cj ! x = Some j' \<and> pid j' \<noteq> p)"
    if "x < len cj" "x \<noteq> i" for x
    using wf_slot(1,2) [OF wf cj that(1)] other [OF that] by simp
  have "free_loop p 0 (len cj) cj (heap m) = free_loop p i (len cj) cj (heap m)"
    using i slot by (intro free_loop_skip) auto
  also have "\<dots> = (case remove_slot i (len cj) j cj (heap m) of
                       Inl e \<Rightarrow> Inl e
                     | Inr (cj1, h1) \<Rightarrow> free_loop p (i + 1) (len cj) cj1 h1)"
    using i le j p by (intro free_loop_hit) auto
  also have "remove_slot i (len cj) j cj (heap m) = Inr (?cj1, ?h1)"
  proof -
    have "j \<in> set (live m)" using lj i ll nth_mem [of i "live m"] by auto
    then have "strs (heap m) (name j) \<noteq> None" using wf by (auto simp: wf_def)
    then have "free (heap m) (name j) = Inr ?h1" by (rule free_allocated)
    then show ?thesis using i le by (auto simp: remove_slot_def)
  qed
  also have "(case Inr (?cj1, ?h1) of
                Inl e \<Rightarrow> Inl e
              | Inr (cj1, h1) \<Rightarrow> free_loop p (i + 1) (len cj) cj1 h1) =
             free_loop p (i + 1) (len cj) ?cj1 ?h1"
    by simp
  also have "\<dots> = free_loop p (len cj) (len cj) ?cj1 ?h1"
  proof (intro free_loop_skip allI impI)
    fix x assume x: "i + 1 \<le> x \<and> x < len cj"
    then have "x < len cj" "x \<noteq> i" by auto
    from slot [OF this] x
    show "x < length (jobs ?cj1) \<and> (\<exists>j'. jobs ?cj1 ! x = Some j' \<and> pid j' \<noteq> p)"
      by auto
  qed (use i in auto)
  also have "\<dots> = Inr (?cj1, ?h1)" by (rule free_loop_end)
  finally show ?thesis using cj i by (simp add: free_job_by_pid_def)
qed

lemma swap_remove_snoc:
  assumes "distinct (map f (B @ [l]))" "i < length (B @ [l])"
  shows "distinct (map f (if i < length B then B[i := l] else B)) \<and>
         set (if i < length B then B[i := l] else B) = set (B @ [l]) - {(B @ [l]) ! i}"
proof (cases "i < length B")
  case False
  then have "(B @ [l]) ! i = l" using assms(2) by (simp add: nth_append)
  then show ?thesis using False assms(1) by auto
next
  case True
  have B: "B = take i B @ B ! i # drop (Suc i) B"
    using True by (rule id_take_nth_drop)
  have U: "B[i := l] = take i B @ l # drop (Suc i) B"
    using True by (rule upd_conv_take_nth_drop)
  have Li: "(B @ [l]) ! i = B ! i" using True by (simp add: nth_append)
  have "distinct (map f ((take i B @ B ! i # drop (Suc i) B) @ [l]))"
    using assms(1) B by simp
  then have d: "distinct (map f (take i B @ l # drop (Suc i) B))" and
    notin: "B ! i \<notin> set (take i B)" "B ! i \<notin> set (drop (Suc i) B)" "B ! i \<noteq> l"
    by (auto simp: image_iff)
  have "set (B @ [l]) = set ((take i B @ B ! i # drop (Suc i) B) @ [l])"
    using B by simp
  then have "set (take i B @ l # drop (Suc i) B) = set (B @ [l]) - {B ! i}"
    using notin by auto
  then show ?thesis using True d U Li by simp
qed

lemma swap_remove_distinct:
  assumes "distinct (map f L)" "i < length L"
  shows "distinct (map f (if i < length L - 1 then (butlast L)[i := last L] else butlast L)) \<and>
         set (if i < length L - 1 then (butlast L)[i := last L] else butlast L) = set L - {L ! i}"
proof -
  have "L \<noteq> []" using assms(2) by auto
  then obtain B l where L: "L = B @ [l]" by (metis rev_exhaust)
  show ?thesis using swap_remove_snoc [of f B l i] assms unfolding L
    by (cases "i < length B") simp_all
qed

lemma wf_take:
  assumes "wf m" "child_jobs m = Some cj"
  shows "take (len cj) (jobs cj) = map Some (live m)"
proof (rule nth_equalityI)
  have le: "len cj \<le> length (jobs cj)" using assms by (auto simp: wf_def)
  show "length (take (len cj) (jobs cj)) = length (map Some (live m))"
    using le wf_length [OF assms] by simp
  fix x assume "x < length (take (len cj) (jobs cj))"
  then have x: "x < len cj" by simp
  show "take (len cj) (jobs cj) ! x = map Some (live m) ! x"
    using wf_slot(2,3) [OF assms x] x by simp
qed

lemma live_after_remove:
  assumes wf: "wf m" and cj: "child_jobs m = Some cj" and i: "i < len cj"
  shows "take (len cj - 1) (if i < len cj - 1 then (jobs cj)[i := jobs cj ! (len cj - 1)] else jobs cj) =
         map Some (if i < length (live m) - 1 then (butlast (live m))[i := last (live m)]
                   else butlast (live m))"
proof -
  let ?L = "live m"
  have ll: "length ?L = len cj" using wf cj by (rule wf_length)
  have tk: "take (len cj) (jobs cj) = map Some ?L" using wf cj by (rule wf_take)
  have ne: "?L \<noteq> []" using i ll by auto
  have "take (len cj - 1) (jobs cj) = butlast (take (len cj) (jobs cj))"
    using wf cj by (simp add: butlast_take wf_def)
  then have bl: "take (len cj - 1) (jobs cj) = map Some (butlast ?L)"
    by (simp add: tk map_butlast)
  have "len cj - 1 < len cj" using i by simp
  then have "jobs cj ! (len cj - 1) = Some (?L ! (len cj - 1))"
    using wf_slot(2) [OF wf cj] by blast
  then have lst: "jobs cj ! (len cj - 1) = Some (last ?L)"
    using ne ll by (simp add: last_conv_nth)
  show ?thesis
  proof (cases "i < len cj - 1")
    case True
    then show ?thesis using ll bl lst by (simp add: take_update_swap map_update)
  next
    case False
    then show ?thesis using ll bl by simp
  qed
qed

lemma wfI:
  assumes "child_jobs m = Some cj" "len cj \<le> cap cj" "cap cj = length (jobs cj)"
    "take (len cj) (jobs cj) = map Some L" "distinct (map name L)"
    "\<forall>j \<in> set L. strs (heap m) (name j) \<noteq> None \<and> name j < brk (heap m)"
  shows "wf m" "live m = L"
proof -
  show l: "live m = L" using assms(1,4) by (simp add: live_def comp_def)
  show "wf m" using assms l by (auto simp: wf_def)
qed

lemma present_index:
  assumes "wf m" "p \<in> set (map pid (live m))"
  obtains cj i where "child_jobs m = Some cj" "i < len cj" "jobs cj ! i = Some (live m ! i)"
    "pid (live m ! i) = p" "\<forall>x < i. pid (live m ! x) \<noteq> p"
proof -
  let ?P = "\<lambda>i. i < length (live m) \<and> pid (live m ! i) = p"
  have "\<exists>i. ?P i" using assms(2) by (auto simp: in_set_conv_nth)
  then have P: "?P (LEAST i. ?P i)" by (rule LeastI_ex)
  have min: "\<forall>x < (LEAST i. ?P i). pid (live m ! x) \<noteq> p"
  proof (intro allI impI)
    fix x assume x: "x < (LEAST i. ?P i)"
    then have "\<not> ?P x" by (rule not_less_Least)
    then show "pid (live m ! x) \<noteq> p" using x P by auto
  qed
  obtain cj where cj: "child_jobs m = Some cj"
    using assms(2) by (cases "child_jobs m") (auto simp: live_def)
  have i: "(LEAST i. ?P i) < len cj" using P wf_length [OF assms(1) cj] by simp
  show thesis
    using that [OF cj i wf_slot(2) [OF assms(1) cj i]] P min by blast
qed

lemma remove_present:
  assumes wf: "wf m" and un: "unique_pids m" and p: "p \<in> set (map pid (live m))"
  obtains m1 j where "free_job_by_pid p m = Inr m1" "wf m1" "unique_pids m1"
    "j \<in> set (live m)" "pid j = p" "set (live m1) = set (live m) - {j}"
    "p \<notin> set (map pid (live m1))" "length (live m1) = length (live m) - 1"
    "strs (heap m1) = (strs (heap m))(name j := None)" "brk (heap m1) = brk (heap m)"
    "mem.more m1 = mem.more m"
proof -
  obtain cj i where cj: "child_jobs m = Some cj" and i: "i < len cj"
    and ji: "jobs cj ! i = Some (live m ! i)" and pi: "pid (live m ! i) = p"
    using wf p by (rule present_index)
  let ?L = "live m"
  let ?j = "?L ! i"
  define L1 where "L1 = (if i < length ?L - 1 then (butlast ?L)[i := last ?L] else butlast ?L)"
  define js1 where "js1 = (if i < len cj - 1 then (jobs cj)[i := jobs cj ! (len cj - 1)] else jobs cj)"
  define cj1 where "cj1 = cj\<lparr>jobs := js1, len := len cj - 1\<rparr>"
  define h1 where "h1 = (heap m)\<lparr>strs := (strs (heap m))(name ?j := None)\<rparr>"
  define m1 where "m1 = m\<lparr>child_jobs := Some cj1, heap := h1\<rparr>"
  have ll: "length ?L = len cj" using wf cj by (rule wf_length)
  have res: "free_job_by_pid p m = Inr m1"
    unfolding m1_def cj1_def js1_def h1_def using wf un cj i ji pi by (rule free_job_by_pid_present)
  have jin: "?j \<in> set ?L" using i ll by simp
  have dn: "distinct (map name ?L)"
    and al: "\<forall>j \<in> set ?L. strs (heap m) (name j) \<noteq> None \<and> name j < brk (heap m)"
    and cap: "len cj \<le> cap cj" "cap cj = length (jobs cj)"
    using wf cj by (auto simp: wf_def)
  have dp: "distinct (map pid ?L)" using un by (simp add: unique_pids_def)
  have il: "i < length ?L" using i ll by simp
  have n1: "distinct (map name L1)"
    unfolding L1_def using swap_remove_distinct [OF dn il] by (rule conjunct1)
  have s1: "set L1 = set ?L - {?j}"
    unfolding L1_def using swap_remove_distinct [OF dn il] by (rule conjunct2)
  have p1: "distinct (map pid L1)"
    unfolding L1_def using swap_remove_distinct [OF dp il] by (rule conjunct1)
  have ljs: "length js1 = length (jobs cj)" by (simp add: js1_def)
  have tk: "take (len cj1) (jobs cj1) = map Some L1"
    using live_after_remove [OF wf cj i] by (simp add: cj1_def js1_def L1_def)
  have inj: "inj_on name (set ?L)" using dn by (simp add: distinct_map)
  have al1: "\<forall>j \<in> set L1. strs (heap m1) (name j) \<noteq> None \<and> name j < brk (heap m1)"
  proof
    fix j assume "j \<in> set L1"
    then have j: "j \<in> set ?L" "j \<noteq> ?j" using s1 by auto
    then have "name j \<noteq> name ?j" using inj jin by (auto dest: inj_onD)
    then show "strs (heap m1) (name j) \<noteq> None \<and> name j < brk (heap m1)"
      using al j by (simp add: m1_def h1_def)
  qed
  have c1: "child_jobs m1 = Some cj1" by (simp add: m1_def)
  have c2: "len cj1 \<le> cap cj1" using cap by (simp add: cj1_def)
  have c3: "cap cj1 = length (jobs cj1)" using cap ljs by (simp add: cj1_def)
  have w: "wf m1" using c1 c2 c3 tk n1 al1 by (rule wfI(1))
  have l1: "live m1 = L1" using c1 c2 c3 tk n1 al1 by (rule wfI(2))
  have injp: "inj_on pid (set ?L)" using dp by (simp add: distinct_map)
  have notp: "p \<notin> set (map pid L1)"
  proof
    assume "p \<in> set (map pid L1)"
    then obtain j where j: "j \<in> set L1" "pid j = p" by auto
    then have "j \<in> set ?L" "j \<noteq> ?j" using s1 by auto
    then show False using injp jin j(2) pi by (auto dest: inj_onD)
  qed
  have len1: "length L1 = length ?L - 1" by (simp add: L1_def)
  show thesis
  proof (rule that [of m1 ?j])
    show "free_job_by_pid p m = Inr m1" by (rule res)
    show "wf m1" by (rule w)
    show "unique_pids m1" using p1 l1 by (simp add: unique_pids_def)
    show "?j \<in> set ?L" by (rule jin)
    show "pid ?j = p" by (rule pi)
    show "set (live m1) = set ?L - {?j}" using s1 l1 by simp
    show "p \<notin> set (map pid (live m1))" using notp l1 by simp
    show "length (live m1) = length ?L - 1" using len1 l1 by simp
    show "strs (heap m1) = (strs (heap m))(name ?j := None)" by (simp add: m1_def h1_def)
    show "brk (heap m1) = brk (heap m)" by (simp add: m1_def h1_def)
    show "mem.more m1 = mem.more m" by (simp add: m1_def)
  qed
qed

lemma find_first:
  assumes wf: "wf m" and i: "i < length (live m)" and pi: "pid (live m ! i) = p"
    and min: "\<forall>x < i. pid (live m ! x) \<noteq> p"
  shows "find_job_by_pid p m = Inr (Some i)"
    and "name_at m i = Inr (the (strs (heap m) (name (live m ! i))))"
    and "find_name p m = Inr (Some (the (strs (heap m) (name (live m ! i)))))"
proof -
  obtain cj where cj: "child_jobs m = Some cj"
    using i by (cases "child_jobs m") (auto simp: live_def)
  have ll: "length (live m) = len cj" using wf cj by (rule wf_length)
  have il: "i < len cj" using i ll by simp
  have "find_loop p 0 (len cj) (jobs cj) = find_loop p i (len cj) (jobs cj)"
  proof (intro find_loop_skip allI impI)
    fix x assume "0 \<le> x \<and> x < i"
    then have x: "x < len cj" "x < i" using il by auto
    show "x < length (jobs cj) \<and> (\<exists>j. jobs cj ! x = Some j \<and> pid j \<noteq> p)"
      using wf_slot(1,2) [OF wf cj x(1)] min x(2) by simp
  qed (use il in auto)
  also have "\<dots> = Inr (Some i)"
    using il wf_slot(1,2) [OF wf cj il] pi by (intro find_loop_hit) auto
  finally show f: "find_job_by_pid p m = Inr (Some i)"
    using cj il by (simp add: find_job_by_pid_def)
  have "strs (heap m) (name (live m ! i)) \<noteq> None"
    using wf i by (auto simp: wf_def)
  then show n: "name_at m i = Inr (the (strs (heap m) (name (live m ! i))))"
    using cj wf_slot(1,2) [OF wf cj il] by (auto simp: name_at_def job_at_def)
  show "find_name p m = Inr (Some (the (strs (heap m) (name (live m ! i)))))"
    by (simp add: find_name_def f n)
qed

lemma find_absent:
  assumes wf: "wf m" and p: "p \<notin> set (map pid (live m))"
  shows "find_job_by_pid p m = Inr None" and "find_name p m = Inr None"
proof -
  show f: "find_job_by_pid p m = Inr None"
  proof (cases "child_jobs m")
    case None
    then show ?thesis by (simp add: find_job_by_pid_def)
  next
    case (Some cj)
    have "find_loop p 0 (len cj) (jobs cj) = find_loop p (len cj) (len cj) (jobs cj)"
    proof (intro find_loop_skip allI impI)
      fix x assume "0 \<le> x \<and> x < len cj"
      then have x: "x < len cj" by simp
      have "live m ! x \<in> set (live m)" using wf_length [OF wf Some] x by simp
      then have "pid (live m ! x) \<noteq> p" using p by auto
      then show "x < length (jobs cj) \<and> (\<exists>j. jobs cj ! x = Some j \<and> pid j \<noteq> p)"
        using wf_slot(1,2) [OF wf Some x] by simp
    qed auto
    then show ?thesis using Some by (simp add: find_job_by_pid_def find_loop_end)
  qed
  show "find_name p m = Inr None" by (simp add: find_name_def f)
qed

lemma take_Suc_update: "l < length js \<Longrightarrow> take (Suc l) (js[l := x]) = take l js @ [x]"
  by (simp add: take_Suc_conv_app_nth)

lemma add_job_ok:
  assumes wf: "wf m"
  obtains m1 where "add_job p n m = Inr m1" "wf m1"
    "live m1 = live m @ [\<lparr>pid = p, name = brk (heap m)\<rparr>]"
    "strs (heap m1) = (strs (heap m))(brk (heap m) \<mapsto> n)"
    "brk (heap m1) = brk (heap m) + 1" "mem.more m1 = mem.more m"
proof -
  define cj0 where "cj0 = (case child_jobs m of
                             None \<Rightarrow> \<lparr>len = 0, cap = 4, jobs = replicate 4 None\<rparr>
                           | Some cj \<Rightarrow> cj)"
  define cj1 where "cj1 = (if len cj0 \<ge> cap cj0
                           then cj0\<lparr>jobs := realloc_jobs (jobs cj0) (len cj0 + 4), cap := cap cj0 + 4\<rparr>
                           else cj0)"
  define nj where "nj = \<lparr>pid = p, name = brk (heap m)\<rparr>"
  define h1 where "h1 = (heap m)\<lparr>strs := (strs (heap m))(brk (heap m) \<mapsto> n), brk := brk (heap m) + 1\<rparr>"
  define cj2 where "cj2 = cj1\<lparr>jobs := (jobs cj1)[len cj0 := Some nj], len := len cj1 + 1\<rparr>"
  define m1 where "m1 = m\<lparr>child_jobs := Some cj2, heap := h1\<rparr>"
  have eq: "add_job p n m =
            (if len cj0 < length (jobs cj1) then Inr m1 else Inl (OutOfBounds (len cj0) (length (jobs cj1))))"
    by (simp add: add_job_def Let_def strdup_def cj0_def cj1_def nj_def h1_def cj2_def m1_def)
  have base: "len cj0 \<le> cap cj0 \<and> cap cj0 = length (jobs cj0) \<and>
              take (len cj0) (jobs cj0) = map Some (live m)"
  proof (cases "child_jobs m")
    case None
    then show ?thesis by (simp add: cj0_def live_def)
  next
    case (Some cj)
    then show ?thesis using wf wf_take [OF wf Some] by (simp add: cj0_def wf_def)
  qed
  have l1: "len cj1 = len cj0" by (simp add: cj1_def)
  have s1: "len cj0 < length (jobs cj1) \<and> len cj1 + 1 \<le> cap cj1 \<and> cap cj1 = length (jobs cj1) \<and>
            take (len cj0) (jobs cj1) = map Some (live m)"
  proof (cases "len cj0 \<ge> cap cj0")
    case True
    have b1: "len cj0 \<le> cap cj0" and b2: "cap cj0 = length (jobs cj0)"
      and b3: "take (len cj0) (jobs cj0) = map Some (live m)"
      using base by blast+
    have e: "len cj0 = length (jobs cj0)" using True b1 b2 by arith
    have "take (len cj0) (realloc_jobs (jobs cj0) (len cj0 + 4)) = map Some (live m)"
      using b3 e by (simp add: realloc_jobs_def)
    moreover have "length (realloc_jobs (jobs cj0) (len cj0 + 4)) = len cj0 + 4"
      using e by (simp add: realloc_jobs_def)
    ultimately show ?thesis using True b2 e by (simp add: cj1_def)
  next
    case False
    have b1: "len cj0 \<le> cap cj0" and b2: "cap cj0 = length (jobs cj0)"
      and b3: "take (len cj0) (jobs cj0) = map Some (live m)"
      using base by blast+
    have "len cj0 < length (jobs cj0)" using False b2 by arith
    then show ?thesis using False b2 b3 by (simp add: cj1_def)
  qed
  have res: "add_job p n m = Inr m1" using eq s1 by simp
  have tk: "take (len cj2) (jobs cj2) = map Some (live m @ [nj])"
    using s1 l1 take_Suc_update [of "len cj0" "jobs cj1" "Some nj"] by (simp add: cj2_def)
  have old: "\<forall>j \<in> set (live m). strs (heap m) (name j) \<noteq> None \<and> name j < brk (heap m)"
    and dn: "distinct (map name (live m))"
    using wf by (auto simp: wf_def)
  have fresh: "brk (heap m) \<notin> name ` set (live m)" using old by auto
  have d1: "distinct (map name (live m @ [nj]))" using dn fresh by (simp add: nj_def)
  have a1: "\<forall>j \<in> set (live m @ [nj]). strs (heap m1) (name j) \<noteq> None \<and> name j < brk (heap m1)"
    using old by (auto simp: m1_def h1_def nj_def)
  have c1: "child_jobs m1 = Some cj2" by (simp add: m1_def)
  have c2: "len cj2 \<le> cap cj2" using s1 by (simp add: cj2_def)
  have c3: "cap cj2 = length (jobs cj2)" using s1 by (simp add: cj2_def)
  show thesis
  proof (rule that [of m1])
    show "add_job p n m = Inr m1" by (rule res)
    show "wf m1" using c1 c2 c3 tk d1 a1 by (rule wfI(1))
    show "live m1 = live m @ [\<lparr>pid = p, name = brk (heap m)\<rparr>]"
      using wfI(2) [OF c1 c2 c3 tk d1 a1] by (simp add: nj_def)
    show "strs (heap m1) = (strs (heap m))(brk (heap m) \<mapsto> n)" by (simp add: m1_def h1_def)
    show "brk (heap m1) = brk (heap m) + 1" by (simp add: m1_def h1_def)
    show "mem.more m1 = mem.more m" by (simp add: m1_def)
  qed
qed

lemma add_jobs_ok:
  assumes "wf m"
  shows "\<exists>m' new. add_jobs adds m = Inr m' \<and> wf m' \<and> live m' = live m @ new \<and>
           length new = length adds \<and> brk (heap m) \<le> brk (heap m') \<and>
           (\<forall>a < brk (heap m). strs (heap m') a = strs (heap m) a)"
  using assms
proof (induction adds arbitrary: m)
  case Nil
  then show ?case by simp
next
  case (Cons x adds)
  obtain p n where x: "x = (p, n)" by (cases x)
  obtain m1 where m1: "add_job p n m = Inr m1" "wf m1"
    "live m1 = live m @ [\<lparr>pid = p, name = brk (heap m)\<rparr>]"
    "strs (heap m1) = (strs (heap m))(brk (heap m) \<mapsto> n)"
    "brk (heap m1) = brk (heap m) + 1"
    using Cons.prems by (rule add_job_ok)
  obtain m' new where m': "add_jobs adds m1 = Inr m'" "wf m'" "live m' = live m1 @ new"
    "length new = length adds" "brk (heap m1) \<le> brk (heap m')"
    "\<forall>a < brk (heap m1). strs (heap m') a = strs (heap m1) a"
    using Cons.IH [OF m1(2)] by blast
  have "\<forall>a < brk (heap m). strs (heap m') a = strs (heap m) a"
    using m'(6) m1(4,5) by simp
  then show ?case
    using m1 m' x by simp
qed

lemma find_name_Some_present:
  assumes "wf m" "find_name q m = Inr (Some s)"
  obtains i where "i < length (live m)" "pid (live m ! i) = q" "\<forall>x < i. pid (live m ! x) \<noteq> q"
    "s = the (strs (heap m) (name (live m ! i)))"
proof -
  have q: "q \<in> set (map pid (live m))"
  proof (rule ccontr)
    assume "q \<notin> set (map pid (live m))"
    then have "find_name q m = Inr None" using assms(1) by (intro find_absent)
    then show False using assms(2) by simp
  qed
  obtain cj i where i: "child_jobs m = Some cj" "i < len cj" "pid (live m ! i) = q"
    "\<forall>x < i. pid (live m ! x) \<noteq> q"
    using present_index [OF assms(1) q] by metis
  have il: "i < length (live m)" using i wf_length [OF assms(1) i(1)] by simp
  have "find_name q m = Inr (Some (the (strs (heap m) (name (live m ! i)))))"
    using assms(1) il i(3,4) by (rule find_first(3))
  then have "s = the (strs (heap m) (name (live m ! i)))" using assms(2) by simp
  then show thesis using that il i by blast
qed

text \<open>
  Claim C4. In a well-formed registry with unique pids that does not hold the pid \<open>p\<close>:
  add_job of \<open>p\<close> with the name \<open>n\<close> succeeds, and then find_job_by_pid returns a job
  whose name is a string equal to \<open>n\<close>; free_job_by_pid of \<open>p\<close> then succeeds, and
  after it find_job_by_pid returns NULL. Any sequence of calls of add_job, however long
  (so also beyond the capacity, where the array is reallocated), succeeds, leaves the
  registry well formed with one more live job for each call, and every pid that was found
  with a name before is found with the same name after.
\<close>

theorem registry_round_trip:
  assumes wf: "wf m" and un: "unique_pids m" and p: "p \<notin> set (map pid (live m))"
  shows "(\<exists>m1 m2. add_job p n m = Inr m1 \<and> find_name p m1 = Inr (Some n) \<and>
                  free_job_by_pid p m1 = Inr m2 \<and> find_job_by_pid p m2 = Inr None) \<and>
         (\<exists>m'. add_jobs adds m = Inr m' \<and> wf m' \<and>
               length (live m') = length (live m) + length adds \<and>
               (\<forall>q s. find_name q m = Inr (Some s) \<longrightarrow> find_name q m' = Inr (Some s)))"
proof
  obtain m1 where m1: "add_job p n m = Inr m1" "wf m1"
    "live m1 = live m @ [\<lparr>pid = p, name = brk (heap m)\<rparr>]"
    "strs (heap m1) = (strs (heap m))(brk (heap m) \<mapsto> n)"
    using wf by (rule add_job_ok)
  let ?i = "length (live m)"
  have i: "?i < length (live m1)" using m1(3) by simp
  have pi: "pid (live m1 ! ?i) = p" using m1(3) by simp
  have min: "\<forall>x < ?i. pid (live m1 ! x) \<noteq> p"
    using p m1(3) by (auto simp: nth_append)
  have "find_name p m1 = Inr (Some (the (strs (heap m1) (name (live m1 ! ?i)))))"
    using m1(2) i pi min by (rule find_first(3))
  then have fn: "find_name p m1 = Inr (Some n)" using m1(3,4) by simp
  have un1: "unique_pids m1" using un p m1(3) by (simp add: unique_pids_def)
  have p1: "p \<in> set (map pid (live m1))" using m1(3) by simp
  obtain m2 where m2: "free_job_by_pid p m1 = Inr m2" "wf m2" "p \<notin> set (map pid (live m2))"
    using remove_present [OF m1(2) un1 p1] by metis
  have "find_job_by_pid p m2 = Inr None" using m2(2,3) by (rule find_absent(1))
  then show "\<exists>m1 m2. add_job p n m = Inr m1 \<and> find_name p m1 = Inr (Some n) \<and>
                  free_job_by_pid p m1 = Inr m2 \<and> find_job_by_pid p m2 = Inr None"
    using m1(1) fn m2(1) by blast
next
  obtain m' new where m': "add_jobs adds m = Inr m'" "wf m'" "live m' = live m @ new"
    "length new = length adds" "\<forall>a < brk (heap m). strs (heap m') a = strs (heap m) a"
    using add_jobs_ok [OF wf, of adds] by blast
  have keep: "find_name q m' = Inr (Some s)" if qs: "find_name q m = Inr (Some s)" for q s
  proof -
    obtain i where i: "i < length (live m)" "pid (live m ! i) = q" "\<forall>x < i. pid (live m ! x) \<noteq> q"
      "s = the (strs (heap m) (name (live m ! i)))"
      using wf qs by (rule find_name_Some_present)
    have same: "live m' ! x = live m ! x" if "x \<le> i" for x
      using that i(1) m'(3) by (simp add: nth_append)
    have "live m ! i \<in> set (live m)" using i(1) by simp
    then have "name (live m ! i) < brk (heap m)" using wf by (auto simp: wf_def)
    then have st: "strs (heap m') (name (live m ! i)) = strs (heap m) (name (live m ! i))"
      using m'(5) by simp
    have "find_name q m' = Inr (Some (the (strs (heap m') (name (live m' ! i)))))"
    proof (rule find_first(3) [OF m'(2)])
      show "i < length (live m')" using i(1) m'(3) by simp
      show "pid (live m' ! i) = q" using i(2) same by simp
      show "\<forall>x < i. pid (live m' ! x) \<noteq> q" using i(3) same by simp
    qed
    then show ?thesis using st i(4) same by simp
  qed
  show "\<exists>m'. add_jobs adds m = Inr m' \<and> wf m' \<and>
               length (live m') = length (live m) + length adds \<and>
               (\<forall>q s. find_name q m = Inr (Some s) \<longrightarrow> find_name q m' = Inr (Some s))"
    using m'(1,2,3,4) keep by auto
qed

text \<open>
  Claim C6. In a well-formed registry with unique pids, free_job_by_pid of a pid that no
  live job has returns the state as it was; and when the live slot \<open>i\<close> holds a job \<open>j\<close>
  with that pid, it frees the name of \<open>j\<close>, copies the last live slot over slot \<open>i\<close>
  (unless \<open>i\<close> is the last live slot) and decrements \<open>len\<close> by one, changing nothing
  else.
\<close>

theorem free_job_by_pid_spec:
  assumes wf: "wf m" and un: "unique_pids m"
  shows "(p \<notin> set (map pid (live m)) \<longrightarrow> free_job_by_pid p m = Inr m) \<and>
         (\<forall>cj i j. child_jobs m = Some cj \<and> i < len cj \<and> jobs cj ! i = Some j \<and> pid j = p \<longrightarrow>
            free_job_by_pid p m =
              Inr (m\<lparr>child_jobs := Some (cj\<lparr>jobs := (if i < len cj - 1
                                                          then (jobs cj)[i := jobs cj ! (len cj - 1)]
                                                          else jobs cj),
                                               len := len cj - 1\<rparr>),
                      heap := (heap m)\<lparr>strs := (strs (heap m))(name j := None)\<rparr>\<rparr>))"
  using free_job_by_pid_absent [OF wf] free_job_by_pid_present [OF wf un] by blast

lemma full_registry_wf: "wf full_registry"
  by (simp add: wf_def live_def full_registry_def)

lemma full_registry_unique: "unique_pids full_registry"
  by (simp add: unique_pids_def live_def full_registry_def)

text \<open>
  Claim C4 at the registry \<open>full_registry\<close>, whose four slots are all live: the pid 15
  is added with the name \<open>ls\<close>, and two jobs are added in a row.
\<close>

theorem registry_round_trip_witness:
  "(\<exists>m1 m2. add_job 15 ''ls'' full_registry = Inr m1 \<and> find_name 15 m1 = Inr (Some ''ls'') \<and>
            free_job_by_pid 15 m1 = Inr m2 \<and> find_job_by_pid 15 m2 = Inr None) \<and>
   (\<exists>m'. add_jobs [(15, ''ls''), (16, ''vi'')] full_registry = Inr m' \<and> wf m' \<and>
         length (live m') = length (live full_registry) + length [(15 :: int, ''ls''), (16, ''vi'')] \<and>
         (\<forall>q s. find_name q full_registry = Inr (Some s) \<longrightarrow> find_name q m' = Inr (Some s)))"
proof -
  have "15 \<notin> set (map pid (live full_registry))"
    by (simp add: live_def full_registry_def)
  then show ?thesis
    by (rule registry_round_trip [OF full_registry_wf full_registry_unique])
qed

text \<open>
  Claim C6 at the registry \<open>full_registry\<close>: no job has the pid 99, and the job with the
  pid 12 is in slot 1 of 4.
\<close>

theorem free_job_by_pid_spec_witness:
  "free_job_by_pid 99 full_registry = Inr full_registry \<and>
   free_job_by_pid 12 full_registry =
     Inr (full_registry
           \<lparr>child_jobs := Some \<lparr>len = 3, cap = 4,
                                 jobs = [Some \<lparr>pid = 11, name = 0\<rparr>, Some \<lparr>pid = 14, name = 3\<rparr>,
                                         Some \<lparr>pid = 13, name = 2\<rparr>, Some \<lparr>pid = 14, name = 3\<rparr>]\<rparr>,
             heap := (heap full_registry)\<lparr>strs := (strs (heap full_registry))(1 := None)\<rparr>\<rparr>)"
proof -
  let ?cj = "\<lparr>len = 4, cap = 4,
              jobs = [Some \<lparr>pid = 11, name = 0\<rparr>, Some \<lparr>pid = 12, name = 1\<rparr>,
                      Some \<lparr>pid = 13, name = 2\<rparr>, Some \<lparr>pid = 14, name = 3\<rparr>]\<rparr>"
  note spec = free_job_by_pid_spec [OF full_registry_wf full_registry_unique]
  have a: "99 \<notin> set (map pid (live full_registry))"
    by (simp add: live_def full_registry_def)
  have b: "child_jobs full_registry = Some ?cj \<and> (1 :: nat) < len ?cj \<and>
           jobs ?cj ! 1 = Some \<lparr>pid = 12, name = 1\<rparr> \<and> pid \<lparr>pid = 12, name = 1\<rparr> = 12"
    by (simp add: full_registry_def)
  have "free_job_by_pid 99 full_registry = Inr full_registry"
    using spec [of 99] a by blast
  moreover have "free_job_by_pid 12 full_registry =
     Inr (full_registry
           \<lparr>child_jobs := Some (?cj\<lparr>jobs := (if 1 < len ?cj - 1
                                               then (jobs ?cj)[1 := jobs ?cj ! (len ?cj - 1)]
                                               else jobs ?cj),
                                     len := len ?cj - 1\<rparr>),
             heap := (heap full_registry)\<lparr>strs := (strs (heap full_registry))(name \<lparr>pid = 12, name = 1\<rparr> := None)\<rparr>\<rparr>)"
    using spec [of 12] b by blast
  ultimately show ?thesis by simp
qed

section \<open>Properties of the driving loop\<close>

lemma free_job_by_pid_frame:
  fixes s :: shell
  assumes "free_job_by_pid p s = Inr s1"
  shows "error s1 = error s" "cwd s1 = cwd s" "out s1 = out s" "calls s1 = calls s"
  using assms
  by (auto simp: free_job_by_pid_def split: option.splits if_splits sum.splits prod.splits)

lemma add_job_frame:
  fixes s :: shell
  assumes "add_job p n s = Inr s1"
  shows "error s1 = error s" "cwd s1 = cwd s" "out s1 = out s" "calls s1 = calls s"
  using assms
  by (auto simp: add_job_def Let_def strdup_def split: option.splits if_splits)

lemma free_jobs_frame:
  fixes s :: shell
  assumes "free_jobs s = Inr s1"
  shows "error s1 = error s" "cwd s1 = cwd s" "out s1 = out s" "calls s1 = calls s"
  using assms
  by (auto simp: free_jobs_def split: option.splits if_splits sum.splits)

lemma mem_print [simp]:
  "child_jobs (print xs s) = child_jobs s" "heap (print xs s) = heap s"
  "error (print xs s) = error s" "cwd (print xs s) = cwd s"
  "calls (print xs s) = calls s" "out (print xs s) = out s @ xs"
  by (simp_all add: print_def)

lemma mem_call [simp]:
  "child_jobs (call x s) = child_jobs s" "heap (call x s) = heap s"
  "error (call x s) = error s" "cwd (call x s) = cwd s"
  "calls (call x s) = calls s @ [x]" "out (call x s) = out s"
  by (simp_all add: call_def)

lemma live_cong: "child_jobs m' = child_jobs m \<Longrightarrow> live m' = live m"
  by (simp add: live_def)

lemma wf_cong: "child_jobs m' = child_jobs m \<Longrightarrow> heap m' = heap m \<Longrightarrow> wf m' = wf m"
  by (simp add: wf_def live_def)

lemma unique_pids_cong: "child_jobs m' = child_jobs m \<Longrightarrow> unique_pids m' = unique_pids m"
  by (simp add: unique_pids_def live_def)

lemma find_job_by_pid_cong:
  "child_jobs m' = child_jobs m \<Longrightarrow> find_job_by_pid p m' = find_job_by_pid p m"
  by (simp add: find_job_by_pid_def)

lemma name_at_cong:
  "child_jobs m' = child_jobs m \<Longrightarrow> heap m' = heap m \<Longrightarrow> name_at m' i = name_at m i"
  by (simp add: name_at_def split: option.splits sum.splits)

lemma registry_print [simp]:
  "live (print xs s) = live s" "wf (print xs s) = wf s" "unique_pids (print xs s) = unique_pids s"
  by (simp_all add: live_def wf_def unique_pids_def)

lemma registry_call [simp]:
  "live (call x s) = live s" "wf (call x s) = wf s" "unique_pids (call x s) = unique_pids s"
  by (simp_all add: live_def wf_def unique_pids_def)

lemma registry_error_update [simp]:
  "live (s\<lparr>error := e\<rparr>) = live s" "wf (s\<lparr>error := e\<rparr>) = wf s"
  "unique_pids (s\<lparr>error := e\<rparr>) = unique_pids s"
  by (simp_all add: live_def wf_def unique_pids_def)

lemma registry_cwd_update [simp]:
  "live (s\<lparr>cwd := d\<rparr>) = live s" "wf (s\<lparr>cwd := d\<rparr>) = wf s"
  "unique_pids (s\<lparr>cwd := d\<rparr>) = unique_pids s"
  by (simp_all add: live_def wf_def unique_pids_def)

lemma report_quiet: "list_all (\<lambda>m. failure_code m = None) (report sys p n st)"
  by (simp add: report_def)

lemma reap_absent:
  assumes "wf s" "child \<notin> set (map pid (live s))"
  shows "reap sys child status s = Inr s"
  using find_absent(1) [OF assms] by (simp add: reap_def)

lemma reap_present:
  fixes s :: shell
  assumes wf: "wf s" and un: "unique_pids s" and p: "child \<in> set (map pid (live s))"
  shows "\<exists>j n s1. j \<in> set (live s) \<and> pid j = child \<and> strs (heap s) (name j) = Some n \<and>
           reap sys child status s = Inr s1 \<and>
           out s1 = out s @ report sys child n status \<and>
           set (live s1) = set (live s) - {j} \<and> child \<notin> set (map pid (live s1)) \<and>
           strs (heap s1) = (strs (heap s))(name j := None) \<and>
           wf s1 \<and> unique_pids s1 \<and>
           error s1 = error s \<and> cwd s1 = cwd s \<and> calls s1 = calls s"
proof -
  obtain cj i where i: "child_jobs s = Some cj" "i < len cj" "pid (live s ! i) = child"
    "\<forall>x < i. pid (live s ! x) \<noteq> child"
    using present_index [OF wf p] by metis
  have il: "i < length (live s)" using i wf_length [OF wf i(1)] by simp
  let ?j = "live s ! i"
  have jin: "?j \<in> set (live s)" using il by simp
  then have "strs (heap s) (name ?j) \<noteq> None" using wf by (auto simp: wf_def)
  then obtain n where n: "strs (heap s) (name ?j) = Some n" by auto
  have f: "find_job_by_pid child s = Inr (Some i)"
    using wf il i(3,4) by (rule find_first(1))
  have na: "name_at s i = Inr n"
    using find_first(2) [OF wf il i(3,4)] n by simp
  let ?s0 = "print (report sys child n status) s"
  have "report sys child n status = []"
    if "\<not> (WIFEXITED sys status \<or> WIFSIGNALED sys status \<or> WIFSTOPPED sys status \<or>
           WIFCONTINUED sys status)"
    using that by (simp add: report_def)
  then have r: "reap sys child status s = free_job_by_pid child ?s0"
    by (auto simp: reap_def f na print_def)
  have wf0: "wf ?s0" and un0: "unique_pids ?s0" and p0: "child \<in> set (map pid (live ?s0))"
    using wf un p by simp_all
  obtain s1 j where s1: "free_job_by_pid child ?s0 = Inr s1" "wf s1" "unique_pids s1"
    "j \<in> set (live ?s0)" "pid j = child" "set (live s1) = set (live ?s0) - {j}"
    "child \<notin> set (map pid (live s1))"
    "strs (heap s1) = (strs (heap ?s0))(name j := None)"
    using remove_present [OF wf0 un0 p0] by metis
  have "j = ?j"
  proof -
    have "inj_on pid (set (live s))" using un by (simp add: unique_pids_def distinct_map)
    then show ?thesis using s1(4,5) jin i(3) by (auto dest: inj_onD)
  qed
  then show ?thesis
    using s1 n r jin i(3) free_job_by_pid_frame [OF s1(1)] by auto
qed

lemma reap_frame:
  fixes s :: shell
  assumes "reap sys child status s = Inr s1"
  shows "error s1 = error s \<and> cwd s1 = cwd s \<and> calls s1 = calls s \<and>
         (\<exists>ms. out s1 = out s @ ms \<and> list_all (\<lambda>m. failure_code m = None) ms)"
proof (cases "find_job_by_pid child s")
  case (Inl e)
  then show ?thesis using assms by (simp add: reap_def)
next
  case (Inr r)
  show ?thesis
  proof (cases r)
    case None
    then show ?thesis using assms Inr by (simp add: reap_def)
  next
    case (Some i)
    then have "\<exists>ms. free_job_by_pid child (print ms s) = Inr s1 \<and>
                    list_all (\<lambda>m. failure_code m = None) ms"
    proof (cases "WIFEXITED sys status \<or> WIFSIGNALED sys status \<or> WIFSTOPPED sys status \<or>
                  WIFCONTINUED sys status")
      case True
      then obtain n where "free_job_by_pid child (print (report sys child n status) s) = Inr s1"
        using assms Inr Some by (auto simp: reap_def split: sum.splits)
      then show ?thesis using report_quiet by blast
    next
      case False
      then have "free_job_by_pid child (print [] s) = Inr s1"
        using assms Inr Some by (auto simp: reap_def print_def split: sum.splits)
      then show ?thesis by (intro exI [of _ "[]"]) simp
    qed
    then obtain ms where f: "free_job_by_pid child (print ms s) = Inr s1"
      and q: "list_all (\<lambda>m. failure_code m = None) ms"
      by blast
    show ?thesis
      using free_job_by_pid_frame [OF f] q by simp
  qed
qed

lemma sweep_frame:
  fixes s :: shell
  shows "sweep sys rs s = Inr s' \<Longrightarrow>
         error s' = error s \<and> cwd s' = cwd s \<and>
         (\<exists>ms. out s' = out s @ ms \<and> list_all (\<lambda>m. failure_code m = None) ms) \<and>
         (\<exists>k. calls s' = calls s @ replicate (Suc k) (Waitpid (- 1) True))"
proof (induction rs arbitrary: s)
  case Nil
  then have "s' = call (Waitpid (- 1) True) s" by simp
  then have "calls s' = calls s @ replicate (Suc 0) (Waitpid (- 1) True)" by simp
  then show ?case using \<open>s' = call (Waitpid (- 1) True) s\<close> by auto
next
  case (Cons r rs)
  obtain child status where r: "r = (child, status)" by (cases r)
  show ?case
  proof (cases "child > 0")
    case False
    then have e: "s' = call (Waitpid (- 1) True) s" using Cons.prems r by simp
    then have "calls s' = calls s @ replicate (Suc 0) (Waitpid (- 1) True)" by simp
    then show ?thesis using e by auto
  next
    case True
    let ?s0 = "call (Waitpid (- 1) True) s"
    obtain s1 where s1: "reap sys child status ?s0 = Inr s1" and sw: "sweep sys rs s1 = Inr s'"
      using Cons.prems r True by (auto split: sum.splits)
    have f1: "error s1 = error ?s0" "cwd s1 = cwd ?s0" "calls s1 = calls ?s0"
      and o1: "\<exists>ms. out s1 = out ?s0 @ ms \<and> list_all (\<lambda>m. failure_code m = None) ms"
      using reap_frame [OF s1] by auto
    have f2: "error s' = error s1" "cwd s' = cwd s1"
      and o2: "\<exists>ms. out s' = out s1 @ ms \<and> list_all (\<lambda>m. failure_code m = None) ms"
      and c2: "\<exists>k. calls s' = calls s1 @ replicate (Suc k) (Waitpid (- 1) True)"
      using Cons.IH [OF sw] by auto
    obtain ms1 where ms1: "out s1 = out s @ ms1" "list_all (\<lambda>m. failure_code m = None) ms1"
      using o1 by auto
    obtain ms2 where ms2: "out s' = out s1 @ ms2" "list_all (\<lambda>m. failure_code m = None) ms2"
      using o2 by auto
    obtain k where k: "calls s' = calls s1 @ replicate (Suc k) (Waitpid (- 1) True)"
      using c2 by auto
    have "out s' = out s @ (ms1 @ ms2) \<and> list_all (\<lambda>m. failure_code m = None) (ms1 @ ms2)"
      using ms1 ms2 by simp
    moreover have "calls s' = calls s @ replicate (Suc (Suc k)) (Waitpid (- 1) True)"
      using k f1(3) by simp
    ultimately show ?thesis using f1 f2 by (metis mem_call(3,4))
  qed
qed

lemma sweep_ok:
  fixes s :: shell
  shows "wf s \<Longrightarrow> unique_pids s \<Longrightarrow> \<exists>s'. sweep sys rs s = Inr s' \<and> wf s' \<and> unique_pids s'"
proof (induction rs arbitrary: s)
  case Nil
  then show ?case by simp
next
  case (Cons r rs)
  obtain child status where r: "r = (child, status)" by (cases r)
  let ?s0 = "call (Waitpid (- 1) True) s"
  have w0: "wf ?s0" "unique_pids ?s0" using Cons.prems by simp_all
  show ?case
  proof (cases "child > 0")
    case False
    then show ?thesis using r w0 by simp
  next
    case True
    have "\<exists>s1. reap sys child status ?s0 = Inr s1 \<and> wf s1 \<and> unique_pids s1"
    proof (cases "child \<in> set (map pid (live ?s0))")
      case True
      then show ?thesis using reap_present [OF w0 True, of sys status] by blast
    next
      case False
      then show ?thesis using reap_absent [OF w0(1) False] w0 by simp
    qed
    then obtain s1 where s1: "reap sys child status ?s0 = Inr s1" "wf s1" "unique_pids s1"
      by blast
    then show ?thesis using Cons.IH [OF s1(2,3)] r True by simp
  qed
qed

text \<open>
  Claim C7. Every call of waitpid in the sweep passes WNOHANG, with which waitpid returns
  at once when no child has changed state; when the first call reports no child, the sweep
  ends after that one call with nothing printed and the registry as it was. In a well-formed
  registry with unique pids, for a child that waitpid returns: when no live job has its
  pid, the sweep goes on from the same state (nothing printed, registry unchanged); when a
  live job has it, the sweep prints for the pid and the name of that job the outcome that
  the chain of the four tests on the status selects, and nothing else: Exited with
  WEXITSTATUS when WIFEXITED holds; otherwise Killed with WTERMSIG when WIFSIGNALED holds;
  otherwise Stopped with WSTOPSIG when WIFSTOPPED holds; otherwise Continued with the raw
  status when WIFCONTINUED holds; otherwise nothing. It then removes that job and no other,
  and goes on from a state that is again well formed with unique pids. The whole sweep ends without
  undefined behaviour, and all its system calls are such waitpid calls.
\<close>

theorem sweep_spec:
  fixes s :: shell
  assumes wf: "wf s" and un: "unique_pids s"
  shows "sweep sys [] s = Inr (call (Waitpid (- 1) True) s) \<and>
         (child \<le> 0 \<longrightarrow> sweep sys ((child, status) # rs) s = Inr (call (Waitpid (- 1) True) s)) \<and>
         (0 < child \<and> child \<notin> set (map pid (live s)) \<longrightarrow>
            sweep sys ((child, status) # rs) s = sweep sys rs (call (Waitpid (- 1) True) s)) \<and>
         (0 < child \<and> child \<in> set (map pid (live s)) \<longrightarrow>
            (\<exists>j n s1. j \<in> set (live s) \<and> pid j = child \<and> strs (heap s) (name j) = Some n \<and>
               sweep sys ((child, status) # rs) s = sweep sys rs s1 \<and>
               out s1 = out s @
                 (if WIFEXITED sys status then [Report child n (Exited (WEXITSTATUS sys status))]
                  else if WIFSIGNALED sys status then [Report child n (Killed (WTERMSIG sys status))]
                  else if WIFSTOPPED sys status then [Report child n (Stopped (WSTOPSIG sys status))]
                  else if WIFCONTINUED sys status then [Report child n (Continued status)]
                  else []) \<and>
               set (live s1) = set (live s) - {j} \<and> child \<notin> set (map pid (live s1)) \<and>
               calls s1 = calls s @ [Waitpid (- 1) True] \<and> wf s1 \<and> unique_pids s1)) \<and>
         (\<exists>s' k. sweep sys rs s = Inr s' \<and> wf s' \<and> unique_pids s' \<and>
            calls s' = calls s @ replicate (Suc k) (Waitpid (- 1) True))"
proof (intro conjI impI)
  let ?s0 = "call (Waitpid (- 1) True) s"
  have w0: "wf ?s0" "unique_pids ?s0" using wf un by simp_all
  show "sweep sys [] s = Inr ?s0" by simp
  show "sweep sys ((child, status) # rs) s = Inr ?s0" if "child \<le> 0"
    using that by simp
  show "sweep sys ((child, status) # rs) s = sweep sys rs ?s0"
    if "0 < child \<and> child \<notin> set (map pid (live s))"
  proof -
    have "reap sys child status ?s0 = Inr ?s0"
      using that w0 by (intro reap_absent) simp_all
    then show ?thesis using that by simp
  qed
  show "\<exists>j n s1. j \<in> set (live s) \<and> pid j = child \<and> strs (heap s) (name j) = Some n \<and>
               sweep sys ((child, status) # rs) s = sweep sys rs s1 \<and>
               out s1 = out s @
                 (if WIFEXITED sys status then [Report child n (Exited (WEXITSTATUS sys status))]
                  else if WIFSIGNALED sys status then [Report child n (Killed (WTERMSIG sys status))]
                  else if WIFSTOPPED sys status then [Report child n (Stopped (WSTOPSIG sys status))]
                  else if WIFCONTINUED sys status then [Report child n (Continued status)]
                  else []) \<and>
               set (live s1) = set (live s) - {j} \<and> child \<notin> set (map pid (live s1)) \<and>
               calls s1 = calls s @ [Waitpid (- 1) True] \<and> wf s1 \<and> unique_pids s1"
    if "0 < child \<and> child \<in> set (map pid (live s))"
  proof -
    have p0: "child \<in> set (map pid (live ?s0))" using that by simp
    obtain j n s1 where s1: "j \<in> set (live ?s0)" "pid j = child" "strs (heap ?s0) (name j) = Some n"
      "reap sys child status ?s0 = Inr s1" "out s1 = out ?s0 @ report sys child n status"
      "set (live s1) = set (live ?s0) - {j}" "child \<notin> set (map pid (live s1))"
      "wf s1" "unique_pids s1" "calls s1 = calls ?s0"
      using reap_present [OF w0 p0, of sys status] by blast
    have sw: "sweep sys ((child, status) # rs) s = sweep sys rs s1"
      using that s1(4) by simp
    show ?thesis
    proof (intro exI conjI)
      show "j \<in> set (live s)" using s1(1) by simp
      show "pid j = child" by (rule s1(2))
      show "strs (heap s) (name j) = Some n" using s1(3) by simp
      show "sweep sys ((child, status) # rs) s = sweep sys rs s1" by (rule sw)
      have "out s1 = out s @ report sys child n status" using s1(5) by simp
      then show "out s1 = out s @
                 (if WIFEXITED sys status then [Report child n (Exited (WEXITSTATUS sys status))]
                  else if WIFSIGNALED sys status then [Report child n (Killed (WTERMSIG sys status))]
                  else if WIFSTOPPED sys status then [Report child n (Stopped (WSTOPSIG sys status))]
                  else if WIFCONTINUED sys status then [Report child n (Continued status)]
                  else [])"
        by (simp only: report_def)
      show "set (live s1) = set (live s) - {j}" using s1(6) by simp
      show "child \<notin> set (map pid (live s1))" by (rule s1(7))
      show "calls s1 = calls s @ [Waitpid (- 1) True]" using s1(10) by simp
      show "wf s1" by (rule s1(8))
      show "unique_pids s1" by (rule s1(9))
    qed
  qed
  show "\<exists>s' k. sweep sys rs s = Inr s' \<and> wf s' \<and> unique_pids s' \<and>
            calls s' = calls s @ replicate (Suc k) (Waitpid (- 1) True)"
  proof -
    obtain s' where s': "sweep sys rs s = Inr s'" "wf s'" "unique_pids s'"
      using sweep_ok [OF wf un] by blast
    then show ?thesis using sweep_frame [OF s'(1)] by blast
  qed
qed

lemma failure_code_nonzero: "failure_code m = Some c \<Longrightarrow> c \<noteq> 0"
  by (cases m) (auto split: if_splits)

lemma last_failure_quiet: "list_all (\<lambda>m. failure_code m = None) ms \<Longrightarrow> last_failure ms = 0"
  by (induction ms) auto

lemma last_failure_append_quiet:
  "list_all (\<lambda>m. failure_code m = None) ys \<Longrightarrow> last_failure (xs @ ys) = last_failure xs"
  by (induction xs) (auto simp: last_failure_quiet split: option.splits)

lemma last_failure_snoc: "failure_code m = Some c \<Longrightarrow> last_failure (xs @ [m]) = c"
  by (induction xs) (auto split: option.splits)

lemma last_failure_zero_iff:
  "last_failure ms = 0 \<longleftrightarrow> list_all (\<lambda>m. failure_code m = None) ms"
  by (induction ms) (auto simp: failure_code_nonzero split: option.splits)

lemma recorded_quiet:
  fixes s :: shell
  assumes "error s = last_failure (out s)" "error s' = error s" "out s' = out s @ ms"
    "list_all (\<lambda>m. failure_code m = None) ms"
  shows "error s' = last_failure (out s')"
  using assms by (simp add: last_failure_append_quiet)

lemma recorded_failure:
  fixes s :: shell
  assumes "failure_code m = Some c"
  shows "error ((print [m] s)\<lparr>error := c\<rparr>) = last_failure (out ((print [m] s)\<lparr>error := c\<rparr>))"
  using assms by (simp add: last_failure_snoc)

lemma jobs_lines_quiet:
  "jobs_lines i len0 m = Inr ls \<Longrightarrow> list_all (\<lambda>m. failure_code m = None) ls"
proof (induction i len0 m arbitrary: ls rule: jobs_lines.induct)
  case (1 i len0 m)
  show ?case
  proof (cases "i < len0")
    case False
    then show ?thesis using "1.prems" by (subst (asm) jobs_lines.simps) simp
  next
    case True
    from "1.prems" obtain cj curr_job n ls' where
      a: "child_jobs m = Some cj" "job_at (jobs cj) i = Inr curr_job" "name_at m i = Inr n"
      "jobs_lines (i + 1) len0 m = Inr ls'" "ls = JobLine (pid curr_job) n # ls'"
      using True
      by (subst (asm) jobs_lines.simps) (auto split: option.splits sum.splits)
    have "list_all (\<lambda>m. failure_code m = None) ls'"
      using "1.IH" [OF True a(1,2,3,4)] .
    then show ?thesis using a(5) by simp
  qed
qed

lemma do_cd_frame:
  "error (do_cd sys a s) = error s" "calls (do_cd sys a s) = calls s"
  "child_jobs (do_cd sys a s) = child_jobs s" "heap (do_cd sys a s) = heap s"
  "\<exists>ms. out (do_cd sys a s) = out s @ ms \<and> list_all (\<lambda>m. failure_code m = None) ms"
  by (auto simp: do_cd_def split: option.splits)

lemma do_pwd_frame:
  "error (do_pwd sys s) = error s" "calls (do_pwd sys s) = calls s"
  "child_jobs (do_pwd sys s) = child_jobs s" "heap (do_pwd sys s) = heap s"
  "\<exists>ms. out (do_pwd sys s) = out s @ ms \<and> list_all (\<lambda>m. failure_code m = None) ms"
  by (auto simp: do_pwd_def)

lemma run_built_in_frame:
  assumes "run_built_in sys c s = Inr (b, s')"
  shows "error s' = error s \<and> calls s' = calls s \<and> child_jobs s' = child_jobs s \<and>
         heap s' = heap s \<and>
         (\<exists>ms. out s' = out s @ ms \<and> list_all (\<lambda>m. failure_code m = None) ms)"
proof -
  obtain n where n: "cmd c = Some n"
    using assms by (cases "cmd c") (auto simp: run_built_in_def)
  have quiet1: "\<And>x. failure_code x = None \<Longrightarrow>
                  \<exists>ms. out (print [x] s) = out s @ ms \<and> list_all (\<lambda>m. failure_code m = None) ms"
    by simp
  have nil: "\<exists>ms. out s = out s @ ms \<and> list_all (\<lambda>m. failure_code m = None) ms"
    by simp
  consider "n = ''exit''" | "n = ''pid''" | "n = ''ppid''" | "n = ''cd''" | "n = ''pwd''"
    | "n = ''jobs''" | "n \<notin> {''exit'', ''pid'', ''ppid'', ''cd'', ''pwd'', ''jobs''}"
    by blast
  then show ?thesis
  proof cases
    case 1
    then show ?thesis using assms n nil by (auto simp: run_built_in_def)
  next
    case 2
    then show ?thesis using assms n quiet1 [of "ShellPid (getpid sys)"]
      by (auto simp: run_built_in_def)
  next
    case 3
    then show ?thesis using assms n quiet1 [of "ParentPid (getppid sys)"]
      by (auto simp: run_built_in_def)
  next
    case 4
    then have "s' = s \<or> (\<exists>a. s' = do_cd sys a s)"
      using assms n by (auto simp: run_built_in_def split: sum.splits option.splits if_splits)
    then show ?thesis using nil do_cd_frame by metis
  next
    case 5
    then have "s' = do_pwd sys s"
      using assms n by (auto simp: run_built_in_def)
    then show ?thesis using do_pwd_frame by metis
  next
    case 6
    then have r: "run_built_in sys c s =
                (case child_jobs s of
                   None \<Rightarrow> Inl NullDeref
                 | Some cj \<Rightarrow>
                     (case jobs_lines 0 (len cj) s of
                        Inl e \<Rightarrow> Inl e
                      | Inr ls \<Rightarrow> Inr (JOBS, print ls s)))"
      using n by (simp add: run_built_in_def)
    obtain cj where cj: "child_jobs s = Some cj"
      using assms r by (cases "child_jobs s") auto
    obtain ls where ls: "jobs_lines 0 (len cj) s = Inr ls"
      using assms r cj by (cases "jobs_lines 0 (len cj) s") auto
    have "s' = print ls s" using assms r cj ls by simp
    then show ?thesis using jobs_lines_quiet [OF ls] by auto
  next
    case 7
    then have "s' = s" using assms n by (auto simp: run_built_in_def)
    then show ?thesis using nil by simp
  qed
qed

lemma gen_command_shape:
  assumes "gen_command line = Inr (ty, co)"
  shows "(ty = FAIL \<and> co = None) \<or> (ty = SPACES \<and> co = None) \<or>
         ((ty = FOREGROUND \<or> ty = BACKGROUND) \<and> co \<noteq> None)"
  using assms
  by (auto simp: gen_command_def split: option.splits prod.splits if_splits sum.splits)

lemma gen_command_Nil: "gen_command [] = Inr (SPACES, None)"
  using gen_command_spaces(1) [of "[]"] by simp

lemma arg_at_Cons_Suc:
  "arg_at a k = Inr r \<Longrightarrow> arg_at (x # a) (Suc k) = Inr r"
  by (auto simp: arg_at_def split: if_splits slot.splits)

lemma args_of_arg_at:
  "args_of a = Some ts \<Longrightarrow>
   (\<forall>k < length ts. arg_at a k = Inr (Some (ts ! k))) \<and> arg_at a (length ts) = Inr None"
proof (induction a arbitrary: ts rule: args_of.induct)
  case 1
  then show ?case by simp
next
  case (2 a)
  then show ?case by simp
next
  case (3 a)
  then show ?case by (simp add: arg_at_def)
next
  case (4 s a)
  then obtain ts' where ts': "args_of a = Some ts'" "ts = s # ts'" by auto
  have ih: "(\<forall>k < length ts'. arg_at a k = Inr (Some (ts' ! k))) \<and> arg_at a (length ts') = Inr None"
    using "4.IH" [OF ts'(1)] .
  have z: "arg_at (Ptr s # a) 0 = Inr (Some s)" by (simp add: arg_at_def)
  show ?case
  proof (intro conjI allI impI)
    fix k assume "k < length ts"
    then show "arg_at (Ptr s # a) k = Inr (Some (ts ! k))"
      using ih ts'(2) z by (cases k) (auto intro: arg_at_Cons_Suc)
  next
    show "arg_at (Ptr s # a) (length ts) = Inr None"
      using ih ts'(2) by (auto intro: arg_at_Cons_Suc)
  qed
qed

lemma free_line_Next:
  "free_line sys inp s = r \<Longrightarrow> r = Next s' \<or> r = Leave s' \<Longrightarrow>
   sweep sys (reaped inp) s = Inr s'"
  by (auto simp: free_line_def split: sum.splits)

lemma free_line_recorded:
  assumes "error s = last_failure (out s)" "free_line sys inp s = r" "r = Next s' \<or> r = Leave s'"
  shows "error s' = last_failure (out s')"
proof -
  have "sweep sys (reaped inp) s = Inr s'" using assms(2,3) by (rule free_line_Next)
  then have "error s' = error s \<and>
             (\<exists>ms. out s' = out s @ ms \<and> list_all (\<lambda>m. failure_code m = None) ms)"
    using sweep_frame by blast
  then show ?thesis using assms(1) recorded_quiet by blast
qed

lemma free_line_ok:
  assumes "wf s" "unique_pids s"
  shows "\<exists>s' k ms. free_line sys inp s = Next s' \<and> wf s' \<and> unique_pids s' \<and>
           error s' = error s \<and> cwd s' = cwd s \<and>
           calls s' = calls s @ replicate (Suc k) (Waitpid (- 1) True) \<and>
           out s' = out s @ ms \<and> list_all (\<lambda>m. failure_code m = None) ms"
proof -
  obtain s' where s': "sweep sys (reaped inp) s = Inr s'" "wf s'" "unique_pids s'"
    using sweep_ok [OF assms] by blast
  have "free_line sys inp s = Next s'" using s'(1) by (simp add: free_line_def)
  then show ?thesis using s'(2,3) sweep_frame [OF s'(1)] by blast
qed


text \<open>
  Claim C8. Let an iteration of the loop, from a state with a well-formed registry with
  unique pids, read a line for which gen_command gives a command named \<open>cd\<close>. With
  no argument, when HOME is set and chdir to its value succeeds with the directory \<open>d\<close>,
  the loop goes on with \<open>d\<close> as working directory and \<open>error\<close> unchanged. With an
  argument for which chdir fails, the iteration prints the prompt and then the perror
  message of \<open>cd\<close>, and the loop goes on with the working directory and \<open>error\<close>
  unchanged; the sweep prints no failure message after it.
\<close>

theorem cd_spec:
  assumes wf: "wf s" and un: "unique_pids s"
    and rd: "getline_ret inp = Some line"
    and gc: "gen_command line = Inr (ty, Some c)"
    and cd: "cmd c = Some ''cd''"
  shows "(args_of (argv c) = Some [''cd''] \<and> getenv_HOME sys = Some home \<and>
          chdir sys (cwd s) home = Some d \<longrightarrow>
            (\<exists>s'. iteration sys prompt inp s = Next s' \<and> cwd s' = d \<and> error s' = error s)) \<and>
         (args_of (argv c) = Some (''cd'' # path # rest) \<and> chdir sys (cwd s) path = None \<longrightarrow>
            (\<exists>s' ms. iteration sys prompt inp s = Next s' \<and> cwd s' = cwd s \<and> error s' = error s \<and>
                      out s' = out s @ [Prompt prompt, Perror ''cd''] @ ms \<and>
                      list_all (\<lambda>m. failure_code m = None) ms))"
proof -
  let ?s1 = "print [Prompt prompt] s"
  have ne: "line \<noteq> []" using gc gen_command_Nil by auto
  have ty: "ty \<noteq> FAIL" "ty \<noteq> SPACES" using gen_command_shape [OF gc] by auto
  have it: "iteration sys prompt inp s =
            (case run_built_in sys c ?s1 of
               Inl e \<Rightarrow> Fault e
             | Inr (b, s2) \<Rightarrow>
                 if b = EXIT then Leave s2
                 else if b = NOT then launch sys inp ty c s2
                 else free_line sys inp s2)"
    using rd ne gc ty by (simp add: iteration_def)
  have rb: "run_built_in sys c ?s1 = Inr (CD, do_cd sys a1 ?s1)"
    if "arg_at (argv c) 0 = Inr (Some ''cd'')" "arg_at (argv c) 1 = Inr a1" for a1
    using cd that by (simp add: run_built_in_def)
  have go: "iteration sys prompt inp s = free_line sys inp (do_cd sys a1 ?s1)"
    if "arg_at (argv c) 0 = Inr (Some ''cd'')" "arg_at (argv c) 1 = Inr a1" for a1
    using it rb [OF that] by simp
  have w1: "wf (do_cd sys a1 ?s1)" "unique_pids (do_cd sys a1 ?s1)" for a1
    using wf un by (auto simp: do_cd_def split: option.splits)
  show ?thesis
  proof (intro conjI impI)
    assume a: "args_of (argv c) = Some [''cd''] \<and> getenv_HOME sys = Some home \<and>
               chdir sys (cwd s) home = Some d"
    have "arg_at (argv c) 0 = Inr (Some ''cd'')" "arg_at (argv c) 1 = Inr None"
      using args_of_arg_at [of "argv c" "[''cd'']"] a by auto
    then have i: "iteration sys prompt inp s = free_line sys inp (do_cd sys None ?s1)"
      by (rule go)
    have dc: "do_cd sys None ?s1 = ?s1\<lparr>cwd := d\<rparr>"
      using a by (simp add: do_cd_def)
    obtain s' where "free_line sys inp (do_cd sys None ?s1) = Next s'"
      "error s' = error (do_cd sys None ?s1)" "cwd s' = cwd (do_cd sys None ?s1)"
      using free_line_ok [OF w1] by blast
    then show "\<exists>s'. iteration sys prompt inp s = Next s' \<and> cwd s' = d \<and> error s' = error s"
      using i dc by simp
  next
    assume a: "args_of (argv c) = Some (''cd'' # path # rest) \<and> chdir sys (cwd s) path = None"
    have "arg_at (argv c) 0 = Inr (Some ''cd'')" "arg_at (argv c) 1 = Inr (Some path)"
      using args_of_arg_at [of "argv c" "''cd'' # path # rest"] a by auto
    then have i: "iteration sys prompt inp s = free_line sys inp (do_cd sys (Some path) ?s1)"
      by (rule go)
    have dc: "do_cd sys (Some path) ?s1 = print [Perror ''cd''] ?s1"
      using a by (simp add: do_cd_def)
    obtain s' ms where s': "free_line sys inp (do_cd sys (Some path) ?s1) = Next s'"
      "error s' = error (do_cd sys (Some path) ?s1)" "cwd s' = cwd (do_cd sys (Some path) ?s1)"
      "out s' = out (do_cd sys (Some path) ?s1) @ ms" "list_all (\<lambda>m. failure_code m = None) ms"
      using free_line_ok [OF w1] by blast
    have "iteration sys prompt inp s = Next s' \<and> cwd s' = cwd s \<and> error s' = error s \<and>
          out s' = out s @ [Prompt prompt, Perror ''cd''] @ ms \<and>
          list_all (\<lambda>m. failure_code m = None) ms"
      using s' i dc by simp
    then show "\<exists>s' ms. iteration sys prompt inp s = Next s' \<and> cwd s' = cwd s \<and> error s' = error s \<and>
                      out s' = out s @ [Prompt prompt, Perror ''cd''] @ ms \<and>
                      list_all (\<lambda>m. failure_code m = None) ms"
      by blast
  qed
qed

lemma gen_command_jobs:
  "gen_command (''jobs'' @ [CHR 0x0A]) =
     Inr (FOREGROUND, Some \<lparr>cmd = Some ''jobs'', argv = [Ptr ''jobs'', Null, Uninit]\<rparr>)"
  by code_simp

text \<open>
  Claim C10 fails on the code: when the first line that the shell reads is \<open>jobs\<close>, the
  registry pointer is still NULL and the built-in reads \<open>child_jobs->len\<close> through it.
  This holds on every platform, for every program name, and whatever the system answers
  in this and later iterations.
\<close>

theorem jobs_before_first_background:
  "main sys dir [a0] (inp\<lparr>getline_ret := Some (''jobs'' @ [CHR 0x0A])\<rparr> # inps) = Crash NullDeref"
proof -
  have "iteration sys ''308sh> '' (inp\<lparr>getline_ret := Some (''jobs'' @ [CHR 0x0A])\<rparr>) (init dir) =
        Fault NullDeref"
    using gen_command_jobs by (simp add: iteration_def run_built_in_def init_def print_def)
  then show ?thesis by (simp add: main_def)
qed

lemma launch_recorded:
  assumes I: "error s = last_failure (out s)"
    and r: "launch sys inp ty c s = r" "r = Next s' \<or> r = Leave s'"
  shows "error s' = last_failure (out s')"
proof -
  let ?s1 = "call Fork s"
  have I1: "error ?s1 = last_failure (out ?s1)" using I by simp
  show ?thesis
  proof (cases "fork_ret inp < 0")
    case True
    let ?s2 = "(print [Perror ''Fork Failed''] ?s1)\<lparr>error := - 3\<rparr>"
    have "free_line sys inp ?s2 = r" using r(1) True by (simp add: launch_def Let_def)
    moreover have "error ?s2 = last_failure (out ?s2)"
      by (rule recorded_failure) simp
    ultimately show ?thesis using r(2) free_line_recorded by blast
  next
    case False
    then obtain n where n: "cmd c = Some n"
      using r by (cases "cmd c") (auto simp: launch_def Let_def)
    show ?thesis
    proof (cases "fork_ret inp = 0")
      case True
      then obtain args where args: "args_of (argv c) = Some args"
        using r False n by (cases "args_of (argv c)") (auto simp: launch_def Let_def)
      let ?s2 = "call (Execvp n args) (print [Launch (child_getpid inp) n] ?s1)"
      have "\<not> execvp_ok inp" and
        e: "r = Leave ((print [Perror ''Command Not Found''] ?s2)\<lparr>error := - 4\<rparr>)"
        using r False True n args by (auto simp: launch_def Let_def split: if_splits)
      then have "s' = (print [Perror ''Command Not Found''] ?s2)\<lparr>error := - 4\<rparr>"
        using r(2) by auto
      moreover have "error ((print [Perror ''Command Not Found''] ?s2)\<lparr>error := - 4\<rparr>) =
                     last_failure (out ((print [Perror ''Command Not Found''] ?s2)\<lparr>error := - 4\<rparr>))"
        by (rule recorded_failure) simp
      ultimately show ?thesis by simp
    next
      case nz: False
      show ?thesis
      proof (cases "ty = FOREGROUND")
        case True
        let ?s2 = "print (report sys (fork_ret inp) n (wait_status inp))
                     (call (Waitpid (fork_ret inp) False) ?s1)"
        have "free_line sys inp ?s2 = r"
          using r(1) False nz n True by (simp add: launch_def Let_def)
        moreover have "error ?s2 = last_failure (out ?s2)"
          using I report_quiet [of sys "fork_ret inp" n "wait_status inp"]
          by (simp add: last_failure_append_quiet)
        ultimately show ?thesis using r(2) free_line_recorded by blast
      next
        case bg: False
        obtain s2 where s2: "add_job (fork_ret inp) n ?s1 = Inr s2" "free_line sys inp s2 = r"
          using r False nz n bg
          by (cases "add_job (fork_ret inp) n ?s1") (auto simp: launch_def Let_def)
        have "error s2 = last_failure (out s2)"
          using add_job_frame [OF s2(1)] I1 by simp
        then show ?thesis using s2(2) r(2) free_line_recorded by blast
      qed
    qed
  qed
qed

lemma iteration_recorded:
  assumes I: "error s = last_failure (out s)"
    and r: "iteration sys prompt inp s = r" "r = Next s' \<or> r = Leave s'"
  shows "error s' = last_failure (out s')"
proof -
  let ?s1 = "print [Prompt prompt] s"
  let ?rf = "(print [ReadFailed] ?s1)\<lparr>error := - 1\<rparr>"
  have I1: "error ?s1 = last_failure (out ?s1)"
    using I by (simp add: last_failure_append_quiet)
  have Irf: "error ?rf = last_failure (out ?rf)" by (rule recorded_failure) simp
  show ?thesis
  proof (cases "getline_ret inp")
    case None
    then have "r = Next ?rf" using r(1) by (simp add: iteration_def)
    then show ?thesis using r(2) Irf by auto
  next
    case (Some line)
    show ?thesis
    proof (cases "line = []")
      case True
      then have "r = Next ?rf" using r(1) Some by (simp add: iteration_def)
      then show ?thesis using r(2) Irf by auto
    next
      case False
      then obtain ty co where g: "gen_command line = Inr (ty, co)"
        using r Some by (cases "gen_command line") (auto simp: iteration_def)
      have it: "r = (if ty = FAIL then free_line sys inp ((print [ParseFailed] ?s1)\<lparr>error := - 2\<rparr>)
                     else if ty = SPACES then free_line sys inp ?s1
                     else (case co of
                             None \<Rightarrow> Fault UninitRead
                           | Some c \<Rightarrow>
                               (case run_built_in sys c ?s1 of
                                  Inl e \<Rightarrow> Fault e
                                | Inr (b, s2) \<Rightarrow>
                                    if b = EXIT then Leave s2
                                    else if b = NOT then launch sys inp ty c s2
                                    else free_line sys inp s2)))"
        using r(1) Some False g by (auto simp: iteration_def Let_def)
      show ?thesis
      proof (cases "ty = FAIL")
        case True
        have "error ((print [ParseFailed] ?s1)\<lparr>error := - 2\<rparr>) =
              last_failure (out ((print [ParseFailed] ?s1)\<lparr>error := - 2\<rparr>))"
          by (rule recorded_failure) simp
        then show ?thesis using it True r(2) free_line_recorded by metis
      next
        case nf: False
        show ?thesis
        proof (cases "ty = SPACES")
          case True
          then show ?thesis using it nf r(2) I1 free_line_recorded by metis
        next
          case ns: False
          then obtain c where c: "co = Some c" using it nf r(2) by (cases co) auto
          obtain b s2 where b: "run_built_in sys c ?s1 = Inr (b, s2)"
            using it nf ns c r(2) by (cases "run_built_in sys c ?s1") auto
          have I2: "error s2 = last_failure (out s2)"
            using run_built_in_frame [OF b] I1 recorded_quiet by blast
          have it2: "r = (if b = EXIT then Leave s2
                          else if b = NOT then launch sys inp ty c s2
                          else free_line sys inp s2)"
            using it nf ns c b by simp
          show ?thesis
          proof (cases "b = EXIT")
            case True
            then show ?thesis using it2 r(2) I2 by auto
          next
            case ne: False
            show ?thesis
            proof (cases "b = NOT")
              case True
              then show ?thesis using it2 ne r(2) I2 launch_recorded by metis
            next
              case False
              then show ?thesis using it2 ne r(2) I2 free_line_recorded by metis
            qed
          qed
        qed
      qed
    qed
  qed
qed

lemma exit_main_Return:
  "exit_main s1 = Return code s \<Longrightarrow> code = error s1 \<and> out s = out s1"
  using free_jobs_frame [of s1]
  by (auto simp: exit_main_def split: sum.splits)

lemma main_loop_recorded:
  "error s0 = last_failure (out s0) \<Longrightarrow> main_loop sys prompt inps s0 = Return code s \<Longrightarrow>
   code = last_failure (out s)"
proof (induction inps arbitrary: s0)
  case Nil
  then show ?case by simp
next
  case (Cons inp inps)
  show ?case
  proof (cases "iteration sys prompt inp s0")
    case (Next s1)
    then have "error s1 = last_failure (out s1)"
      using Cons.prems(1) iteration_recorded by blast
    moreover have "main_loop sys prompt inps s1 = Return code s"
      using Cons.prems(2) Next by simp
    ultimately show ?thesis by (rule Cons.IH)
  next
    case (Leave s1)
    then have "error s1 = last_failure (out s1)"
      using Cons.prems(1) iteration_recorded by blast
    moreover have "exit_main s1 = Return code s" using Cons.prems(2) Leave by simp
    ultimately show ?thesis using exit_main_Return by fastforce
  next
    case (Replaced s1)
    then show ?thesis using Cons.prems(2) by simp
  next
    case (Fault e)
    then show ?thesis using Cons.prems(2) by simp
  qed
qed


section \<open>The registry invariant along the loop\<close>

text \<open>
  The hypotheses on the registry in the properties above hold in every run in which fork
  returns a pid that no live job has (the system reuses no pid of a child that was not
  waited for): they hold at the start, and an iteration that goes on to the next one
  keeps them.
\<close>

lemma init_registry: "wf (init dir)" "unique_pids (init dir)"
  by (simp_all add: init_def wf_def unique_pids_def live_def)

lemma free_line_keeps:
  assumes "wf s" "unique_pids s" "free_line sys inp s = Next s'"
  shows "wf s' \<and> unique_pids s'"
  using free_line_ok [OF assms(1,2), of sys inp] assms(3) by auto

lemma launch_keeps:
  assumes wf: "wf s" and un: "unique_pids s"
    and fresh: "fork_ret inp \<notin> set (map pid (live s))"
    and r: "launch sys inp ty c s = Next s'"
  shows "wf s' \<and> unique_pids s'"
proof -
  let ?s1 = "call Fork s"
  have q1: "wf ?s1" "unique_pids ?s1" using wf un by simp_all
  show ?thesis
  proof (cases "fork_ret inp < 0")
    case True
    let ?s2 = "(print [Perror ''Fork Failed''] ?s1)\<lparr>error := - 3\<rparr>"
    have "free_line sys inp ?s2 = Next s'" using r True by (simp add: launch_def Let_def)
    moreover have "wf ?s2" "unique_pids ?s2" using q1 by simp_all
    ultimately show ?thesis using free_line_keeps by blast
  next
    case False
    then obtain n where n: "cmd c = Some n"
      using r by (cases "cmd c") (auto simp: launch_def Let_def)
    have nz: "fork_ret inp \<noteq> 0"
      using r False n by (auto simp: launch_def Let_def split: option.splits if_splits)
    show ?thesis
    proof (cases "ty = FOREGROUND")
      case True
      let ?s2 = "print (report sys (fork_ret inp) n (wait_status inp))
                   (call (Waitpid (fork_ret inp) False) ?s1)"
      have "free_line sys inp ?s2 = Next s'"
        using r False nz n True by (simp add: launch_def Let_def)
      moreover have "wf ?s2" "unique_pids ?s2" using q1 by simp_all
      ultimately show ?thesis using free_line_keeps by blast
    next
      case bg: False
      obtain s2 where s2: "add_job (fork_ret inp) n ?s1 = Inr s2" "free_line sys inp s2 = Next s'"
        using r False nz n bg
        by (cases "add_job (fork_ret inp) n ?s1") (auto simp: launch_def Let_def)
      obtain m1 where m1: "add_job (fork_ret inp) n ?s1 = Inr m1" "wf m1"
        "live m1 = live ?s1 @ [\<lparr>pid = fork_ret inp, name = brk (heap ?s1)\<rparr>]"
        using add_job_ok [OF q1(1)] by metis
      have "m1 = s2" using m1(1) s2(1) by simp
      then have "wf s2" "unique_pids s2"
        using m1(2,3) un fresh by (simp_all add: unique_pids_def)
      then show ?thesis using s2(2) free_line_keeps by blast
    qed
  qed
qed

lemma iteration_keeps:
  assumes wf: "wf s" and un: "unique_pids s"
    and fresh: "fork_ret inp \<notin> set (map pid (live s))"
    and r: "iteration sys prompt inp s = Next s'"
  shows "wf s' \<and> unique_pids s'"
proof -
  let ?s1 = "print [Prompt prompt] s"
  let ?rf = "(print [ReadFailed] ?s1)\<lparr>error := - 1\<rparr>"
  have q1: "wf ?s1" "unique_pids ?s1" using wf un by simp_all
  have qrf: "wf ?rf" "unique_pids ?rf" using wf un by simp_all
  show ?thesis
  proof (cases "getline_ret inp")
    case None
    then have "s' = ?rf" using r by (simp add: iteration_def)
    then show ?thesis using qrf by simp
  next
    case (Some line)
    show ?thesis
    proof (cases "line = []")
      case True
      then have "s' = ?rf" using r Some by (simp add: iteration_def)
      then show ?thesis using qrf by simp
    next
      case False
      then obtain ty co where g: "gen_command line = Inr (ty, co)"
        using r Some by (cases "gen_command line") (auto simp: iteration_def)
      have it: "Next s' =
                  (if ty = FAIL then free_line sys inp ((print [ParseFailed] ?s1)\<lparr>error := - 2\<rparr>)
                   else if ty = SPACES then free_line sys inp ?s1
                   else (case co of
                           None \<Rightarrow> Fault UninitRead
                         | Some c \<Rightarrow>
                             (case run_built_in sys c ?s1 of
                                Inl e \<Rightarrow> Fault e
                              | Inr (b, s2) \<Rightarrow>
                                  if b = EXIT then Leave s2
                                  else if b = NOT then launch sys inp ty c s2
                                  else free_line sys inp s2)))"
        using r Some False g by (auto simp: iteration_def Let_def)
      show ?thesis
      proof (cases "ty = FAIL")
        case True
        have "wf ((print [ParseFailed] ?s1)\<lparr>error := - 2\<rparr>)"
          "unique_pids ((print [ParseFailed] ?s1)\<lparr>error := - 2\<rparr>)"
          using wf un by simp_all
        then show ?thesis using it True free_line_keeps by metis
      next
        case nf: False
        show ?thesis
        proof (cases "ty = SPACES")
          case True
          then show ?thesis using it nf q1 free_line_keeps by metis
        next
          case ns: False
          then obtain c where c: "co = Some c" using it nf by (cases co) auto
          obtain b s2 where b: "run_built_in sys c ?s1 = Inr (b, s2)"
            using it nf ns c by (cases "run_built_in sys c ?s1") auto
          have same: "child_jobs s2 = child_jobs ?s1" "heap s2 = heap ?s1"
            using run_built_in_frame [OF b] by simp_all
          have q2: "wf s2" "unique_pids s2" "live s2 = live s"
            using q1 wf_cong [OF same] unique_pids_cong [OF same(1)] live_cong [OF same(1)]
            by simp_all
          have it2: "Next s' = (if b = EXIT then Leave s2
                                else if b = NOT then launch sys inp ty c s2
                                else free_line sys inp s2)"
            using it nf ns c b by simp
          show ?thesis
          proof (cases "b = NOT")
            case True
            then have "launch sys inp ty c s2 = Next s'" using it2 by simp
            then show ?thesis using q2 fresh launch_keeps by metis
          next
            case False
            then have "free_line sys inp s2 = Next s'" using it2 by (auto split: if_splits)
            then show ?thesis using q2 free_line_keeps by blast
          qed
        qed
      qed
    qed
  qed
qed

section \<open>The properties at concrete runs\<close>

lemma busy_shell_wf: "wf busy_shell"
  by (simp add: wf_def live_def busy_shell_def full_registry_def)

lemma busy_shell_unique: "unique_pids busy_shell"
  by (simp add: unique_pids_def live_def busy_shell_def full_registry_def)

lemma gen_command_exit:
  "gen_command (''exit'' @ [CHR 0x0A]) =
     Inr (FOREGROUND, Some \<lparr>cmd = Some ''exit'', argv = [Ptr ''exit'', Null, Uninit]\<rparr>)"
  by code_simp

lemma gen_command_ls:
  "gen_command (''ls'' @ [CHR 0x0A]) =
     Inr (FOREGROUND, Some \<lparr>cmd = Some ''ls'', argv = [Ptr ''ls'', Null, Uninit]\<rparr>)"
  by code_simp

lemma gen_command_bell: "gen_command [CHR 0x07, CHR 0x0A] = Inr (FAIL, None)"
  by code_simp

lemmas run_defs = main_def iteration_def launch_def free_line_def run_built_in_def exit_main_def
  free_jobs_def init_def print_def call_def idle_def Let_def

lemma run1:
  "main example_os ''/'' [''shell'']
     [idle\<lparr>getline_ret := Some [CHR 0x07, CHR 0x0A]\<rparr>, idle\<lparr>getline_ret := Some (''exit'' @ [CHR 0x0A])\<rparr>] =
   Return (- 2)
     ((init ''/'')\<lparr>error := - 2,
                    out := [Prompt ''308sh> '', ParseFailed, Prompt ''308sh> ''],
                    calls := [Waitpid (- 1) True]\<rparr>)"
  using gen_command_bell gen_command_exit by (simp add: run_defs)

lemma run2:
  "main example_os ''/'' [''shell'', ''-x''] [] = Return 0 ((init ''/'')\<lparr>out := [Usage]\<rparr>)"
  by (simp add: run_defs)

lemma run3:
  "main example_os ''/'' [''shell'']
     [idle\<lparr>getline_ret := Some (''ls'' @ [CHR 0x0A]), fork_ret := - 1\<rparr>,
      idle\<lparr>getline_ret := Some (''exit'' @ [CHR 0x0A])\<rparr>] =
   Return (- 3)
     ((init ''/'')\<lparr>error := - 3,
                    out := [Prompt ''308sh> '', Perror ''Fork Failed'', Prompt ''308sh> ''],
                    calls := [Fork, Waitpid (- 1) True]\<rparr>)"
  using gen_command_ls gen_command_exit by (simp add: run_defs)





lemma gen_command_cd:
  "gen_command (''cd'' @ [CHR 0x0A]) =
     Inr (FOREGROUND, Some \<lparr>cmd = Some ''cd'', argv = [Ptr ''cd'', Null, Uninit]\<rparr>)"
  by code_simp

lemma gen_command_cd_nope:
  "gen_command (''cd /nope'' @ [CHR 0x0A]) =
     Inr (FOREGROUND, Some \<lparr>cmd = Some ''cd'', argv = [Ptr ''cd'', Ptr ''/nope'', Null, Uninit]\<rparr>)"
  by code_simp

text \<open>
  Claim C8 at the lines \<open>cd\<close> and \<open>cd /nope\<close> on the example platform, where HOME
  is \<open>/home/user\<close> and chdir to \<open>/nope\<close> fails.
\<close>

theorem cd_spec_witness:
  "(\<exists>s'. iteration example_os ''$ '' (idle\<lparr>getline_ret := Some (''cd'' @ [CHR 0x0A])\<rparr>) busy_shell = Next s' \<and>
         cwd s' = ''/home/user'' \<and> error s' = error busy_shell) \<and>
   (\<exists>s' ms. iteration example_os ''$ '' (idle\<lparr>getline_ret := Some (''cd /nope'' @ [CHR 0x0A])\<rparr>) busy_shell = Next s' \<and>
            cwd s' = cwd busy_shell \<and> error s' = error busy_shell \<and>
            out s' = out busy_shell @ [Prompt ''$ '', Perror ''cd''] @ ms \<and>
            list_all (\<lambda>m. failure_code m = None) ms)"
proof -
  let ?c1 = "\<lparr>cmd = Some ''cd'', argv = [Ptr ''cd'', Null, Uninit]\<rparr>"
  let ?c2 = "\<lparr>cmd = Some ''cd'', argv = [Ptr ''cd'', Ptr ''/nope'', Null, Uninit]\<rparr>"
  have r1: "getline_ret (idle\<lparr>getline_ret := Some (''cd'' @ [CHR 0x0A])\<rparr>) = Some (''cd'' @ [CHR 0x0A])"
    by simp
  have r2: "getline_ret (idle\<lparr>getline_ret := Some (''cd /nope'' @ [CHR 0x0A])\<rparr>) =
            Some (''cd /nope'' @ [CHR 0x0A])"
    by simp
  have n1: "cmd ?c1 = Some ''cd''" and n2: "cmd ?c2 = Some ''cd''" by simp_all
  have h1: "args_of (argv ?c1) = Some [''cd''] \<and> getenv_HOME example_os = Some ''/home/user'' \<and>
            chdir example_os (cwd busy_shell) ''/home/user'' = Some ''/home/user''"
    by (simp add: example_os_def)
  have h2: "args_of (argv ?c2) = Some (''cd'' # ''/nope'' # []) \<and>
            chdir example_os (cwd busy_shell) ''/nope'' = None"
    by (simp add: example_os_def)
  note t1 = cd_spec [OF busy_shell_wf busy_shell_unique r1 gen_command_cd n1,
      where sys = example_os and home = "''/home/user''" and d = "''/home/user''" and prompt = "''$ ''"]
  note t2 = cd_spec [OF busy_shell_wf busy_shell_unique r2 gen_command_cd_nope n2,
      where sys = example_os and path = "''/nope''" and rest = "[]" and prompt = "''$ ''"]
  have a: "\<exists>s'. iteration example_os ''$ '' (idle\<lparr>getline_ret := Some (''cd'' @ [CHR 0x0A])\<rparr>) busy_shell = Next s' \<and>
         cwd s' = ''/home/user'' \<and> error s' = error busy_shell"
    using t1 h1 by blast
  have b: "\<exists>s' ms. iteration example_os ''$ '' (idle\<lparr>getline_ret := Some (''cd /nope'' @ [CHR 0x0A])\<rparr>) busy_shell = Next s' \<and>
            cwd s' = cwd busy_shell \<and> error s' = error busy_shell \<and>
            out s' = out busy_shell @ [Prompt ''$ '', Perror ''cd''] @ ms \<and>
            list_all (\<lambda>m. failure_code m = None) ms"
    using t2 h2 by blast
  show ?thesis using a b by (rule conjI)
qed

text \<open>
  Claim C7 at a shell with the four background jobs 11 to 14, on the example platform:
  waitpid returns 0 at once; it returns the pid 99 that no job has; it returns the pid 12,
  of the job \<open>make\<close>, with the status 256 of an exit with code 1, with the status 9 of
  a death by signal 9, with the status 4991 of a stop by signal 19, with the status 65535
  of a continuation, and with the status 255, of which none of the four tests holds.
\<close>

theorem sweep_spec_witness:
  "sweep example_os [] busy_shell = Inr (call (Waitpid (- 1) True) busy_shell) \<and>
   sweep example_os ((0, 0) # [(12, 256)]) busy_shell = Inr (call (Waitpid (- 1) True) busy_shell) \<and>
   sweep example_os ((99, 0) # [(12, 256)]) busy_shell =
     sweep example_os [(12, 256)] (call (Waitpid (- 1) True) busy_shell) \<and>
   (\<exists>j n s1. j \<in> set (live busy_shell) \<and> pid j = 12 \<and> strs (heap busy_shell) (name j) = Some n \<and>
      n = ''make'' \<and>
      sweep example_os ((12, 256) # [(99, 0)]) busy_shell = sweep example_os [(99, 0)] s1 \<and>
      out s1 = out busy_shell @ [Report 12 n (Exited 1)] \<and>
      set (live s1) = set (live busy_shell) - {j} \<and> 12 \<notin> set (map pid (live s1)) \<and>
      calls s1 = calls busy_shell @ [Waitpid (- 1) True] \<and> wf s1 \<and> unique_pids s1) \<and>
   (\<exists>j n s1. j \<in> set (live busy_shell) \<and> pid j = 12 \<and> strs (heap busy_shell) (name j) = Some n \<and>
      n = ''make'' \<and>
      sweep example_os ((12, 9) # [(99, 0)]) busy_shell = sweep example_os [(99, 0)] s1 \<and>
      out s1 = out busy_shell @ [Report 12 n (Killed 9)] \<and>
      set (live s1) = set (live busy_shell) - {j} \<and> 12 \<notin> set (map pid (live s1)) \<and>
      calls s1 = calls busy_shell @ [Waitpid (- 1) True] \<and> wf s1 \<and> unique_pids s1) \<and>
   (\<exists>j n s1. j \<in> set (live busy_shell) \<and> pid j = 12 \<and> strs (heap busy_shell) (name j) = Some n \<and>
      n = ''make'' \<and>
      sweep example_os ((12, 4991) # [(99, 0)]) busy_shell = sweep example_os [(99, 0)] s1 \<and>
      out s1 = out busy_shell @ [Report 12 n (Stopped 19)] \<and>
      set (live s1) = set (live busy_shell) - {j} \<and> 12 \<notin> set (map pid (live s1)) \<and>
      calls s1 = calls busy_shell @ [Waitpid (- 1) True] \<and> wf s1 \<and> unique_pids s1) \<and>
   (\<exists>j n s1. j \<in> set (live busy_shell) \<and> pid j = 12 \<and> strs (heap busy_shell) (name j) = Some n \<and>
      n = ''make'' \<and>
      sweep example_os ((12, 65535) # [(99, 0)]) busy_shell = sweep example_os [(99, 0)] s1 \<and>
      out s1 = out busy_shell @ [Report 12 n (Continued 65535)] \<and>
      set (live s1) = set (live busy_shell) - {j} \<and> 12 \<notin> set (map pid (live s1)) \<and>
      calls s1 = calls busy_shell @ [Waitpid (- 1) True] \<and> wf s1 \<and> unique_pids s1) \<and>
   (\<exists>j n s1. j \<in> set (live busy_shell) \<and> pid j = 12 \<and> strs (heap busy_shell) (name j) = Some n \<and>
      n = ''make'' \<and>
      sweep example_os ((12, 255) # [(99, 0)]) busy_shell = sweep example_os [(99, 0)] s1 \<and>
      out s1 = out busy_shell @ [] \<and>
      set (live s1) = set (live busy_shell) - {j} \<and> 12 \<notin> set (map pid (live s1)) \<and>
      calls s1 = calls busy_shell @ [Waitpid (- 1) True] \<and> wf s1 \<and> unique_pids s1) \<and>
   (\<exists>s' k. sweep example_os [(12, 256), (99, 0)] busy_shell = Inr s' \<and> wf s' \<and> unique_pids s' \<and>
      calls s' = calls busy_shell @ replicate (Suc k) (Waitpid (- 1) True))"
proof -
  note t = sweep_spec [OF busy_shell_wf busy_shell_unique, where sys = example_os]
  have p0: "(0 :: int) \<le> 0" by simp
  have p99: "0 < (99 :: int) \<and> 99 \<notin> set (map pid (live busy_shell))"
    by (simp add: live_def busy_shell_def full_registry_def)
  have p12: "0 < (12 :: int) \<and> 12 \<in> set (map pid (live busy_shell))"
    by (simp add: live_def busy_shell_def full_registry_def)
  have mk: "n = ''make''"
    if "j \<in> set (live busy_shell)" "pid j = 12" "strs (heap busy_shell) (name j) = Some n" for j n
    using that by (auto simp: live_def busy_shell_def full_registry_def)
  have 1: "sweep example_os [] busy_shell = Inr (call (Waitpid (- 1) True) busy_shell)"
    using t [where child = 0 and status = 0 and rs = "[]"] by blast
  have 2: "sweep example_os ((0, 0) # [(12, 256)]) busy_shell = Inr (call (Waitpid (- 1) True) busy_shell)"
    using t [where child = 0 and status = 0 and rs = "[(12, 256)]"] p0 by blast
  have 3: "sweep example_os ((99, 0) # [(12, 256)]) busy_shell =
           sweep example_os [(12, 256)] (call (Waitpid (- 1) True) busy_shell)"
    using t [where child = 99 and status = 0 and rs = "[(12, 256)]"] p99 by blast
  have 4: "\<exists>j n s1. j \<in> set (live busy_shell) \<and> pid j = 12 \<and> strs (heap busy_shell) (name j) = Some n \<and>
      n = ''make'' \<and>
      sweep example_os ((12, st) # [(99, 0)]) busy_shell = sweep example_os [(99, 0)] s1 \<and>
      out s1 = out busy_shell @
        (if WIFEXITED example_os st then [Report 12 n (Exited (WEXITSTATUS example_os st))]
         else if WIFSIGNALED example_os st then [Report 12 n (Killed (WTERMSIG example_os st))]
         else if WIFSTOPPED example_os st then [Report 12 n (Stopped (WSTOPSIG example_os st))]
         else if WIFCONTINUED example_os st then [Report 12 n (Continued st)]
         else []) \<and>
      set (live s1) = set (live busy_shell) - {j} \<and> 12 \<notin> set (map pid (live s1)) \<and>
      calls s1 = calls busy_shell @ [Waitpid (- 1) True] \<and> wf s1 \<and> unique_pids s1" for st
  proof -
    obtain j n s1 where s1: "j \<in> set (live busy_shell)" "pid j = 12"
      "strs (heap busy_shell) (name j) = Some n"
      "sweep example_os ((12, st) # [(99, 0)]) busy_shell = sweep example_os [(99, 0)] s1"
      "out s1 = out busy_shell @
        (if WIFEXITED example_os st then [Report 12 n (Exited (WEXITSTATUS example_os st))]
         else if WIFSIGNALED example_os st then [Report 12 n (Killed (WTERMSIG example_os st))]
         else if WIFSTOPPED example_os st then [Report 12 n (Stopped (WSTOPSIG example_os st))]
         else if WIFCONTINUED example_os st then [Report 12 n (Continued st)]
         else [])"
      "set (live s1) = set (live busy_shell) - {j}" "12 \<notin> set (map pid (live s1))"
      "calls s1 = calls busy_shell @ [Waitpid (- 1) True]" "wf s1" "unique_pids s1"
      using t [where child = 12 and status = st and rs = "[(99, 0)]"] p12 by blast
    have "n = ''make''" using s1(1,2,3) by (rule mk)
    with s1 show ?thesis by (intro exI conjI)
  qed
  have e0: "(if WIFEXITED example_os 256 then [Report 12 n (Exited (WEXITSTATUS example_os 256))]
         else if WIFSIGNALED example_os 256 then [Report 12 n (Killed (WTERMSIG example_os 256))]
         else if WIFSTOPPED example_os 256 then [Report 12 n (Stopped (WSTOPSIG example_os 256))]
         else if WIFCONTINUED example_os 256 then [Report 12 n (Continued 256)]
         else []) = [Report 12 n (Exited 1)]" for n
    by (simp add: example_os_def)
  have c0: "\<exists>j n s1. j \<in> set (live busy_shell) \<and> pid j = 12 \<and> strs (heap busy_shell) (name j) = Some n \<and>
         n = ''make'' \<and>
         sweep example_os ((12, 256) # [(99, 0)]) busy_shell = sweep example_os [(99, 0)] s1 \<and>
         out s1 = out busy_shell @ [Report 12 n (Exited 1)] \<and>
         set (live s1) = set (live busy_shell) - {j} \<and> 12 \<notin> set (map pid (live s1)) \<and>
         calls s1 = calls busy_shell @ [Waitpid (- 1) True] \<and> wf s1 \<and> unique_pids s1"
    using 4 [of 256] by (simp only: e0)
  have e1: "(if WIFEXITED example_os 9 then [Report 12 n (Exited (WEXITSTATUS example_os 9))]
         else if WIFSIGNALED example_os 9 then [Report 12 n (Killed (WTERMSIG example_os 9))]
         else if WIFSTOPPED example_os 9 then [Report 12 n (Stopped (WSTOPSIG example_os 9))]
         else if WIFCONTINUED example_os 9 then [Report 12 n (Continued 9)]
         else []) = [Report 12 n (Killed 9)]" for n
    by (simp add: example_os_def)
  have c1: "\<exists>j n s1. j \<in> set (live busy_shell) \<and> pid j = 12 \<and> strs (heap busy_shell) (name j) = Some n \<and>
         n = ''make'' \<and>
         sweep example_os ((12, 9) # [(99, 0)]) busy_shell = sweep example_os [(99, 0)] s1 \<and>
         out s1 = out busy_shell @ [Report 12 n (Killed 9)] \<and>
         set (live s1) = set (live busy_shell) - {j} \<and> 12 \<notin> set (map pid (live s1)) \<and>
         calls s1 = calls busy_shell @ [Waitpid (- 1) True] \<and> wf s1 \<and> unique_pids s1"
    using 4 [of 9] by (simp only: e1)
  have e2: "(if WIFEXITED example_os 4991 then [Report 12 n (Exited (WEXITSTATUS example_os 4991))]
         else if WIFSIGNALED example_os 4991 then [Report 12 n (Killed (WTERMSIG example_os 4991))]
         else if WIFSTOPPED example_os 4991 then [Report 12 n (Stopped (WSTOPSIG example_os 4991))]
         else if WIFCONTINUED example_os 4991 then [Report 12 n (Continued 4991)]
         else []) = [Report 12 n (Stopped 19)]" for n
    by (simp add: example_os_def)
  have c2: "\<exists>j n s1. j \<in> set (live busy_shell) \<and> pid j = 12 \<and> strs (heap busy_shell) (name j) = Some n \<and>
         n = ''make'' \<and>
         sweep example_os ((12, 4991) # [(99, 0)]) busy_shell = sweep example_os [(99, 0)] s1 \<and>
         out s1 = out busy_shell @ [Report 12 n (Stopped 19)] \<and>
         set (live s1) = set (live busy_shell) - {j} \<and> 12 \<notin> set (map pid (live s1)) \<and>
         calls s1 = calls busy_shell @ [Waitpid (- 1) True] \<and> wf s1 \<and> unique_pids s1"
    using 4 [of 4991] by (simp only: e2)
  have e3: "(if WIFEXITED example_os 65535 then [Report 12 n (Exited (WEXITSTATUS example_os 65535))]
         else if WIFSIGNALED example_os 65535 then [Report 12 n (Killed (WTERMSIG example_os 65535))]
         else if WIFSTOPPED example_os 65535 then [Report 12 n (Stopped (WSTOPSIG example_os 65535))]
         else if WIFCONTINUED example_os 65535 then [Report 12 n (Continued 65535)]
         else []) = [Report 12 n (Continued 65535)]" for n
    by (simp add: example_os_def)
  have c3: "\<exists>j n s1. j \<in> set (live busy_shell) \<and> pid j = 12 \<and> strs (heap busy_shell) (name j) = Some n \<and>
         n = ''make'' \<and>
         sweep example_os ((12, 65535) # [(99, 0)]) busy_shell = sweep example_os [(99, 0)] s1 \<and>
         out s1 = out busy_shell @ [Report 12 n (Continued 65535)] \<and>
         set (live s1) = set (live busy_shell) - {j} \<and> 12 \<notin> set (map pid (live s1)) \<and>
         calls s1 = calls busy_shell @ [Waitpid (- 1) True] \<and> wf s1 \<and> unique_pids s1"
    using 4 [of 65535] by (simp only: e3)
  have e4: "(if WIFEXITED example_os 255 then [Report 12 n (Exited (WEXITSTATUS example_os 255))]
         else if WIFSIGNALED example_os 255 then [Report 12 n (Killed (WTERMSIG example_os 255))]
         else if WIFSTOPPED example_os 255 then [Report 12 n (Stopped (WSTOPSIG example_os 255))]
         else if WIFCONTINUED example_os 255 then [Report 12 n (Continued 255)]
         else []) = []" for n
    by (simp add: example_os_def)
  have c4: "\<exists>j n s1. j \<in> set (live busy_shell) \<and> pid j = 12 \<and> strs (heap busy_shell) (name j) = Some n \<and>
         n = ''make'' \<and>
         sweep example_os ((12, 255) # [(99, 0)]) busy_shell = sweep example_os [(99, 0)] s1 \<and>
         out s1 = out busy_shell @ [] \<and>
         set (live s1) = set (live busy_shell) - {j} \<and> 12 \<notin> set (map pid (live s1)) \<and>
         calls s1 = calls busy_shell @ [Waitpid (- 1) True] \<and> wf s1 \<and> unique_pids s1"
    using 4 [of 255] by (simp only: e4)
  have 5: "\<exists>s' k. sweep example_os [(12, 256), (99, 0)] busy_shell = Inr s' \<and> wf s' \<and> unique_pids s' \<and>
      calls s' = calls busy_shell @ replicate (Suc k) (Waitpid (- 1) True)"
    using t [where child = 0 and status = 0 and rs = "[(12, 256), (99, 0)]"] by blast
  show ?thesis using 1 2 3 c0 c1 c2 c3 c4 5 by (intro conjI)
qed

end
